theory Spec2Isabelle
  imports Main
begin

section \<open>Errors and repositories\<close>

text \<open>
  Call ids, link ids and DSL sources are Python strings. The exceptions the two source
  files can see are the repositories' \<^verbatim>\<open>KeyError\<close>, the write-once failure of a
  registration, and whatever the DSL front end raises.
\<close>

datatype error =
    KeyError string
  | DuplicateId string
  | ParseError
  | ReductionError
  | EvaluationError

text \<open>
  Modelled from the spec: the repository classes and the \<^verbatim>\<open>register_*\<close> functions
  live in \<^verbatim>\<open>quantdsl.domain.model\<close> and \<^verbatim>\<open>quantdsl.infrastructure\<close>, which are not part
  of the two files verified here. Section 6 of the specification gives their contract:
  \<^verbatim>\<open>get(id)\<close> fails with not-found if the id is absent (the source catches it as
  \<^verbatim>\<open>KeyError\<close>), and \<^verbatim>\<open>put(id, value)\<close> fails if the id exists with a different value
  and is a no-op if it exists with the same value.
\<close>

definition repo_get :: "(string \<rightharpoonup> 'a) \<Rightarrow> string \<Rightarrow> error + 'a" where
  "repo_get repo k = (case repo k of None \<Rightarrow> Inl (KeyError k) | Some v \<Rightarrow> Inr v)"

definition repo_put :: "(string \<rightharpoonup> 'a) \<Rightarrow> string \<Rightarrow> 'a \<Rightarrow> error + (string \<rightharpoonup> 'a)" where
  "repo_put repo k v =
     (case repo k of
        None \<Rightarrow> Inr (repo(k \<mapsto> v))
      | Some v' \<Rightarrow> if v' = v then Inr repo else Inl (DuplicateId k))"

section \<open>The execution-order scheduler\<close>

text \<open>
  \<^verbatim>\<open>generate_execution_order\<close> (dependency_graphs.py, lines 75 to 114) is Kahn's
  algorithm. Its state is the frontier \<^verbatim>\<open>S\<close> (a Python set), the dictionary
  \<^verbatim>\<open>removed_edges\<close> (a \<^verbatim>\<open>defaultdict(set)\<close>) and the sequence yielded so far.

  The frontier is kept as a list without duplicates; \<^verbatim>\<open>S.add(m)\<close> is \<open>set_add\<close>.
  \<^verbatim>\<open>S.pop()\<close> removes an arbitrary element: the model takes a list of numbers, one per
  iteration of the \<^verbatim>\<open>while\<close> loop, and the iteration with number \<open>c\<close> pops the
  element at index \<open>c mod length S\<close>. Every element of the frontier can be popped by a
  suitable number, so the runs of the model over all such lists are all the runs of the
  loop. The list is also the fuel: a run that has used all of it with a non-empty
  frontier has no result (\<open>None\<close>).
\<close>

type_synonym dependencies_repo = "string \<rightharpoonup> string list"
type_synonym dependents_repo = "string \<rightharpoonup> string list"
type_synonym removed_edges = "string \<rightharpoonup> string set"

definition set_add :: "string \<Rightarrow> string list \<Rightarrow> string list" where
  "set_add m S = (if m \<in> set S then S else S @ [m])"

text \<open>Reading \<^verbatim>\<open>removed_edges[m]\<close>: a missing key of the defaultdict is the empty set.\<close>

definition removed_of :: "removed_edges \<Rightarrow> string \<Rightarrow> string set" where
  "removed_of R m = (case R m of None \<Rightarrow> {} | Some E \<Rightarrow> E)"

text \<open>\<^verbatim>\<open>removed_edges[m].add(n)\<close>\<close>

definition removed_add :: "removed_edges \<Rightarrow> string \<Rightarrow> string \<Rightarrow> removed_edges" where
  "removed_add R m n = R(m \<mapsto> insert n (removed_of R m))"

text \<open>
  The body of \<^verbatim>\<open>for m in dependents\<close> (lines 99 to 114). The inner \<^verbatim>\<open>for ... else\<close>
  reaches its \<^verbatim>\<open>else\<close> exactly when no dependency of \<open>m\<close> is missing from
  \<^verbatim>\<open>removed_edges[m]\<close>. \<^verbatim>\<open>call_dependencies_repo[m]\<close> raises for an unregistered \<open>m\<close>.
\<close>

definition visit_dependent ::
  "dependencies_repo \<Rightarrow> string \<Rightarrow> string \<Rightarrow> string list \<times> removed_edges \<Rightarrow>
   error + string list \<times> removed_edges" where
  "visit_dependent call_dependencies_repo n m st =
     (case st of (S, R) \<Rightarrow>
        let R1 = removed_add R m n in
        case repo_get call_dependencies_repo m of
          Inl e \<Rightarrow> Inl e
        | Inr ds \<Rightarrow>
            if list_all (\<lambda>d. d \<in> removed_of R1 m) ds
            then Inr (set_add m S, R1(m := None))
            else Inr (S, R1))"

fun visit_dependents ::
  "dependencies_repo \<Rightarrow> string \<Rightarrow> string list \<Rightarrow> string list \<times> removed_edges \<Rightarrow>
   error + string list \<times> removed_edges" where
  "visit_dependents call_dependencies_repo n [] st = Inr st"
| "visit_dependents call_dependencies_repo n (m # ms) st =
     (case visit_dependent call_dependencies_repo n m st of
        Inl e \<Rightarrow> Inl e
      | Inr st' \<Rightarrow> visit_dependents call_dependencies_repo n ms st')"

text \<open>
  The \<^verbatim>\<open>while S\<close> loop. The result is the sequence yielded and the exception that ended
  the generator, if one did. A \<^verbatim>\<open>KeyError\<close> of \<^verbatim>\<open>call_dependents_repo[n]\<close> is caught
  (\<^verbatim>\<open>continue\<close>).
\<close>

fun execution_loop ::
  "dependents_repo \<Rightarrow> dependencies_repo \<Rightarrow> nat list \<Rightarrow> string list \<Rightarrow> removed_edges \<Rightarrow>
   string list \<Rightarrow> (string list \<times> error option) option" where
  "execution_loop call_dependents_repo call_dependencies_repo [] S R yielded =
     (if S = [] then Some (yielded, None) else None)"
| "execution_loop call_dependents_repo call_dependencies_repo (c # cs) S R yielded =
     (if S = [] then Some (yielded, None)
      else
        let n = S ! (c mod length S);
            S1 = removeAll n S;
            yielded1 = yielded @ [n]
        in case repo_get call_dependents_repo n of
             Inl e \<Rightarrow> execution_loop call_dependents_repo call_dependencies_repo cs S1 R yielded1
           | Inr dependents \<Rightarrow>
               (case visit_dependents call_dependencies_repo n dependents (S1, R) of
                  Inl e \<Rightarrow> Some (yielded1, Some e)
                | Inr (S2, R2) \<Rightarrow>
                    execution_loop call_dependents_repo call_dependencies_repo cs S2 R2 yielded1))"

definition generate_execution_order ::
  "nat list \<Rightarrow> string list \<Rightarrow> dependents_repo \<Rightarrow> dependencies_repo \<Rightarrow>
   (string list \<times> error option) option" where
  "generate_execution_order pops leaf_call_ids call_dependents_repo call_dependencies_repo =
     execution_loop call_dependents_repo call_dependencies_repo pops
       (remdups leaf_call_ids) Map.empty []"


section \<open>The graph assembler\<close>

text \<open>
  \<^verbatim>\<open>CallRequirement\<close> has the fields the evaluator reads; a \<^verbatim>\<open>StubbedCall\<close> carries
  the same two fields together with its id and its dependencies.
\<close>

record 't call_requirement =
  dsl_source :: string
  effective_present_time :: "'t option"

record 't stubbed_call = "'t call_requirement" +
  call_id :: string
  dependencies :: "string list"

text \<open>
  The repositories of \<^verbatim>\<open>BaseQuantDslApplication\<close> that the two files use. A
  \<^verbatim>\<open>register_*\<close> function publishes an event that the event store persists; the
  repositories read the event store, so a registration is a write to the repository.
  \<^verbatim>\<open>contract_valuation_repo\<close> keeps the dependency graph ids of the valuations
  registered, in order.
\<close>

record ('t, 'v) repos =
  call_requirement_repo :: "string \<rightharpoonup> 't call_requirement"
  call_dependencies_repo :: "string \<rightharpoonup> string list"
  call_dependents_repo :: "string \<rightharpoonup> string list"
  call_link_repo :: "string \<rightharpoonup> string"
  call_result_repo :: "string \<rightharpoonup> 'v"
  contract_valuation_repo :: "string list"

text \<open>
  Modelled from the spec: the \<^verbatim>\<open>register_*\<close> functions of \<^verbatim>\<open>quantdsl.domain.model\<close> are
  not among the files verified here; each is the write-once \<open>repo_put\<close> of section 6 into
  its repository.
\<close>

definition register_call_requirement ::
  "string \<Rightarrow> string \<Rightarrow> 't option \<Rightarrow> ('t, 'v) repos \<Rightarrow> error + ('t, 'v) repos" where
  "register_call_requirement cid src ept st =
     (case repo_put (call_requirement_repo st) cid
             \<lparr>dsl_source = src, effective_present_time = ept\<rparr> of
        Inl e \<Rightarrow> Inl e
      | Inr r \<Rightarrow> Inr (st\<lparr>call_requirement_repo := r\<rparr>))"

definition register_call_dependencies ::
  "string \<Rightarrow> string list \<Rightarrow> ('t, 'v) repos \<Rightarrow> error + ('t, 'v) repos" where
  "register_call_dependencies cid ds st =
     (case repo_put (call_dependencies_repo st) cid ds of
        Inl e \<Rightarrow> Inl e
      | Inr r \<Rightarrow> Inr (st\<lparr>call_dependencies_repo := r\<rparr>))"

definition register_call_dependents ::
  "string \<Rightarrow> string list \<Rightarrow> ('t, 'v) repos \<Rightarrow> error + ('t, 'v) repos" where
  "register_call_dependents cid ms st =
     (case repo_put (call_dependents_repo st) cid ms of
        Inl e \<Rightarrow> Inl e
      | Inr r \<Rightarrow> Inr (st\<lparr>call_dependents_repo := r\<rparr>))"

definition register_call_link ::
  "string \<Rightarrow> string \<Rightarrow> ('t, 'v) repos \<Rightarrow> error + ('t, 'v) repos" where
  "register_call_link link_id cid st =
     (case repo_put (call_link_repo st) link_id cid of
        Inl e \<Rightarrow> Inl e
      | Inr r \<Rightarrow> Inr (st\<lparr>call_link_repo := r\<rparr>))"

definition register_call_result ::
  "string \<Rightarrow> 'v \<Rightarrow> ('t, 'v) repos \<Rightarrow> error + ('t, 'v) repos" where
  "register_call_result cid result_value st =
     (case repo_put (call_result_repo st) cid result_value of
        Inl e \<Rightarrow> Inl e
      | Inr r \<Rightarrow> Inr (st\<lparr>call_result_repo := r\<rparr>))"

text \<open>
  \<^verbatim>\<open>all_dependents\<close> is a \<^verbatim>\<open>defaultdict(list)\<close>; it is kept as an association list in
  the order in which its keys were first used, which is the order of \<^verbatim>\<open>.items()\<close>.
  \<open>append_dependent d c\<close> is \<^verbatim>\<open>all_dependents[d].append(c)\<close>.
\<close>

fun append_dependent ::
  "string \<Rightarrow> string \<Rightarrow> (string \<times> string list) list \<Rightarrow> (string \<times> string list) list" where
  "append_dependent d c [] = [(d, [c])]"
| "append_dependent d c ((k, ms) # al) =
     (if k = d then (k, ms @ [c]) # al else (k, ms) # append_dependent d c al)"

text \<open>\<^verbatim>\<open>for dependency_call_id in dependencies: all_dependents[dependency_call_id].append(call_id)\<close>\<close>

fun track_dependents ::
  "string \<Rightarrow> string list \<Rightarrow> (string \<times> string list) list \<Rightarrow> (string \<times> string list) list" where
  "track_dependents c [] al = al"
| "track_dependents c (d # ds) al = track_dependents c ds (append_dependent d c al)"

text \<open>
  The loop over the stubbed calls (lines 28 to 46). The sequence that
  \<^verbatim>\<open>generate_stubbed_calls\<close> yields is a parameter: the DSL front end that produces it
  (lines 17 to 23) is outside the two files.
\<close>

fun register_stubs ::
  "'t stubbed_call list \<Rightarrow> string list \<Rightarrow> (string \<times> string list) list \<Rightarrow> ('t, 'v) repos \<Rightarrow>
   error + string list \<times> (string \<times> string list) list \<times> ('t, 'v) repos" where
  "register_stubs [] leaf_call_ids all_dependents st = Inr (leaf_call_ids, all_dependents, st)"
| "register_stubs (stub # stubs) leaf_call_ids all_dependents st =
     (case register_call_requirement (call_id stub) (dsl_source stub)
             (effective_present_time stub) st of
        Inl e \<Rightarrow> Inl e
      | Inr st1 \<Rightarrow>
          (case register_call_dependencies (call_id stub) (dependencies stub) st1 of
             Inl e \<Rightarrow> Inl e
           | Inr st2 \<Rightarrow>
               if length (dependencies stub) = 0
               then register_stubs stubs (leaf_call_ids @ [call_id stub]) all_dependents st2
               else register_stubs stubs leaf_call_ids
                      (track_dependents (call_id stub) (dependencies stub) all_dependents) st2))"

text \<open>\<^verbatim>\<open>for call_id, dependents in all_dependents.items(): register_call_dependents(...)\<close>\<close>

fun register_all_dependents ::
  "(string \<times> string list) list \<Rightarrow> ('t, 'v) repos \<Rightarrow> error + ('t, 'v) repos" where
  "register_all_dependents [] st = Inr st"
| "register_all_dependents ((cid, dependents) # al) st =
     (case register_call_dependents cid dependents st of
        Inl e \<Rightarrow> Inl e
      | Inr st' \<Rightarrow> register_all_dependents al st')"

text \<open>
  Lines 53 to 56: one link per yielded call id, keyed by the id yielded before it, the
  first by the contract specification id.
\<close>

fun register_call_links ::
  "string \<Rightarrow> string list \<Rightarrow> ('t, 'v) repos \<Rightarrow> error + ('t, 'v) repos" where
  "register_call_links link_id [] st = Inr st"
| "register_call_links link_id (cid # cids) st =
     (case register_call_link link_id cid st of
        Inl e \<Rightarrow> Inl e
      | Inr st' \<Rightarrow> register_call_links cid cids st')"

text \<open>
  \<^verbatim>\<open>generate_dependency_graph\<close> in its two parts. \<open>register_graph\<close> is lines 25 to 51:
  it registers the requirements, dependencies and dependents and returns the leaf call
  ids. \<open>register_execution_order\<close> is lines 52 to 56. The result of the second part and of
  the whole is \<open>None\<close> when the scheduler has not returned within the given pops,
  \<open>Some (Inl e)\<close> when an exception \<open>e\<close> leaves the function and \<open>Some (Inr st)\<close> with the
  repositories when it returns. An exception of the scheduler reaches the caller after
  the links of the ids yielded before it have been registered.
\<close>

definition register_graph ::
  "string \<Rightarrow> 't stubbed_call list \<Rightarrow> ('t, 'v) repos \<Rightarrow> error + string list \<times> ('t, 'v) repos" where
  "register_graph contract_specification_id stubs st =
     (case register_stubs stubs [] [] st of
        Inl e \<Rightarrow> Inl e
      | Inr (leaf_call_ids, all_dependents, st1) \<Rightarrow>
          (case register_all_dependents all_dependents st1 of
             Inl e \<Rightarrow> Inl e
           | Inr st2 \<Rightarrow>
               (case register_call_dependents contract_specification_id [] st2 of
                  Inl e \<Rightarrow> Inl e
                | Inr st3 \<Rightarrow> Inr (leaf_call_ids, st3))))"

definition finish_links ::
  "error option \<Rightarrow> error + ('t, 'v) repos \<Rightarrow> error + ('t, 'v) repos" where
  "finish_links raised linked =
     (case linked of
        Inl e \<Rightarrow> Inl e
      | Inr st \<Rightarrow> (case raised of None \<Rightarrow> Inr st | Some e \<Rightarrow> Inl e))"

definition register_execution_order ::
  "nat list \<Rightarrow> string \<Rightarrow> string list \<Rightarrow> ('t, 'v) repos \<Rightarrow> (error + ('t, 'v) repos) option" where
  "register_execution_order pops contract_specification_id leaf_call_ids st =
     (case generate_execution_order pops leaf_call_ids
             (call_dependents_repo st) (call_dependencies_repo st) of
        None \<Rightarrow> None
      | Some (yielded, raised) \<Rightarrow>
          Some (finish_links raised (register_call_links contract_specification_id yielded st)))"

definition generate_dependency_graph ::
  "nat list \<Rightarrow> string \<Rightarrow> 't stubbed_call list \<Rightarrow> ('t, 'v) repos \<Rightarrow>
   (error + ('t, 'v) repos) option" where
  "generate_dependency_graph pops contract_specification_id stubs st =
     (case register_graph contract_specification_id stubs st of
        Inl e \<Rightarrow> Some (Inl e)
      | Inr (leaf_call_ids, st3) \<Rightarrow>
          register_execution_order pops contract_specification_id leaf_call_ids st3)"

section \<open>The evaluator\<close>

text \<open>\<^verbatim>\<open>get_dependency_values\<close> (lines 59 to 72): the \<^verbatim>\<open>except KeyError: raise\<close> re-raises.\<close>

fun dependency_values_loop ::
  "(string \<rightharpoonup> 'v) \<Rightarrow> string list \<Rightarrow> (string \<rightharpoonup> 'v) \<Rightarrow> error + (string \<rightharpoonup> 'v)" where
  "dependency_values_loop result_repo [] dependency_values = Inr dependency_values"
| "dependency_values_loop result_repo (stub_id # stub_ids) dependency_values =
     (case repo_get result_repo stub_id of
        Inl e \<Rightarrow> Inl e
      | Inr stub_result \<Rightarrow>
          dependency_values_loop result_repo stub_ids (dependency_values(stub_id \<mapsto> stub_result)))"

definition get_dependency_values ::
  "string \<Rightarrow> dependencies_repo \<Rightarrow> (string \<rightharpoonup> 'v) \<Rightarrow> error + (string \<rightharpoonup> 'v)" where
  "get_dependency_values cid dependencies_repo result_repo =
     (case repo_get dependencies_repo cid of
        Inl e \<Rightarrow> Inl e
      | Inr stub_dependencies \<Rightarrow> dependency_values_loop result_repo stub_dependencies Map.empty)"

text \<open>
  \<^verbatim>\<open>MarketSimulation\<close> with the attributes the evaluator reads (\<open>simulation_id\<close> is
  \<^verbatim>\<open>market_simulation.id\<close>), and the keyword arguments of \<^verbatim>\<open>dsl_expr.evaluate\<close>. Times are
  \<^verbatim>\<open>datetime\<close> objects, which are never false in a Python condition, so
  \<^verbatim>\<open>call.effective_present_time or market_simulation.observation_date\<close> takes the second
  operand exactly when the first is \<^verbatim>\<open>None\<close>. The \<^verbatim>\<open>simulated_price_repo\<close> argument is the
  application's own repository at every call and is left to the \<open>evaluate\<close> collaborator.
\<close>

record ('t, 'r) market_simulation =
  simulation_id :: string
  market_names :: "string list"
  observation_date :: 't
  interest_rate :: 'r

record ('t, 'r) evaluation_kwds =
  kwd_simulation_id :: string
  kwd_interest_rate :: 'r
  present_time :: 't
  first_market_name :: "string option"

definition make_evaluation_kwds ::
  "'t call_requirement \<Rightarrow> ('t, 'r) market_simulation \<Rightarrow> ('t, 'r) evaluation_kwds" where
  "make_evaluation_kwds call market_simulation =
     \<lparr>kwd_simulation_id = simulation_id market_simulation,
      kwd_interest_rate = interest_rate market_simulation,
      present_time =
        (case effective_present_time call of
           Some t \<Rightarrow> t
         | None \<Rightarrow> observation_date market_simulation),
      first_market_name =
        (if market_names market_simulation \<noteq> []
         then Some (hd (market_names market_simulation)) else None)\<rparr>"

text \<open>
  The collaborators of the evaluator that are outside the two files, as parameters:
  the parser, \<^verbatim>\<open>stubbed_module.body[0].reduce(dsl_locals, DslNamespace())\<close>, numeric
  evaluation, and \<^verbatim>\<open>regenerate_execution_order\<close>, which replays the call links of a
  dependency graph (the ids it yields, and the exception that ended it, if one did).
\<close>

record ('t, 'r, 'v, 'm, 'x) collaborators =
  dsl_parse :: "string \<Rightarrow> error + 'm"
  reduce_body :: "'m \<Rightarrow> (string \<rightharpoonup> 'v) \<Rightarrow> error + 'x"
  evaluate :: "'x \<Rightarrow> ('t, 'r) evaluation_kwds \<Rightarrow> error + 'v"
  regenerate_execution_order :: "string \<Rightarrow> (string \<rightharpoonup> string) \<Rightarrow> string list \<times> error option"

text \<open>
  The body of the loop of \<^verbatim>\<open>generate_contract_valuation\<close> (lines 145 to 175) for one
  call id. Beside the outcome it returns the calls of \<open>evaluate\<close> it made, each with the
  call id and the keyword arguments passed.
\<close>

definition evaluate_call ::
  "('t, 'r, 'v, 'm, 'x) collaborators \<Rightarrow> ('t, 'r) market_simulation \<Rightarrow> string \<Rightarrow>
   ('t, 'v) repos \<Rightarrow> (string \<times> ('t, 'r) evaluation_kwds) list \<times> (error + ('t, 'v) repos)" where
  "evaluate_call D market_simulation cid st =
     (case repo_get (call_requirement_repo st) cid of
        Inl e \<Rightarrow> ([], Inl e)
      | Inr call \<Rightarrow>
     (case get_dependency_values cid (call_dependencies_repo st) (call_result_repo st) of
        Inl e \<Rightarrow> ([], Inl e)
      | Inr dependency_values \<Rightarrow>
     (case dsl_parse D (dsl_source call) of
        Inl e \<Rightarrow> ([], Inl e)
      | Inr stubbed_module \<Rightarrow>
     (case reduce_body D stubbed_module dependency_values of
        Inl e \<Rightarrow> ([], Inl e)
      | Inr dsl_expr \<Rightarrow>
          let kwds = make_evaluation_kwds call market_simulation in
          (case evaluate D dsl_expr kwds of
             Inl e \<Rightarrow> ([(cid, kwds)], Inl e)
           | Inr result_value \<Rightarrow>
               ([(cid, kwds)], register_call_result cid result_value st))))))"

text \<open>
  The loop over the replayed execution order: the repositories when the loop ends, the
  calls of \<open>evaluate\<close> made, and the exception that ended it, if one did.
\<close>

fun valuation_loop ::
  "('t, 'r, 'v, 'm, 'x) collaborators \<Rightarrow> ('t, 'r) market_simulation \<Rightarrow> string list \<Rightarrow>
   ('t, 'v) repos \<Rightarrow>
   ('t, 'v) repos \<times> (string \<times> ('t, 'r) evaluation_kwds) list \<times> error option" where
  "valuation_loop D market_simulation [] st = (st, [], None)"
| "valuation_loop D market_simulation (cid # cids) st =
     (case evaluate_call D market_simulation cid st of
        (evals, Inl e) \<Rightarrow> (st, evals, Some e)
      | (evals, Inr st') \<Rightarrow>
          (case valuation_loop D market_simulation cids st' of
             (st'', evals', raised) \<Rightarrow> (st'', evals @ evals', raised)))"

definition generate_contract_valuation ::
  "('t, 'r, 'v, 'm, 'x) collaborators \<Rightarrow> string \<Rightarrow> ('t, 'r) market_simulation \<Rightarrow>
   ('t, 'v) repos \<Rightarrow>
   ('t, 'v) repos \<times> (string \<times> ('t, 'r) evaluation_kwds) list \<times> error option" where
  "generate_contract_valuation D dependency_graph_id market_simulation st =
     (let st0 = st\<lparr>contract_valuation_repo := contract_valuation_repo st @ [dependency_graph_id]\<rparr>;
          replay = regenerate_execution_order D dependency_graph_id (call_link_repo st0)
      in case valuation_loop D market_simulation (fst replay) st0 of
           (st', evals, Some e) \<Rightarrow> (st', evals, Some e)
         | (st', evals, None) \<Rightarrow> (st', evals, snd replay))"

section \<open>Dependency graphs\<close>

text \<open>
  The registries as a graph: \<open>(d, c)\<close> is an edge when \<open>d\<close> is listed among the
  dependencies registered for \<open>c\<close>. The calls of the graph are the ids with registered
  dependencies, \<open>dom\<close> of the dependencies registry.
\<close>

definition edges :: "dependencies_repo \<Rightarrow> (string \<times> string) set" where
  "edges deps = {(d, c). \<exists>ds. deps c = Some ds \<and> d \<in> set ds}"

text \<open>Every dependency is itself a registered call.\<close>

definition closed :: "dependencies_repo \<Rightarrow> bool" where
  "closed deps \<longleftrightarrow> (\<forall>c ds d. deps c = Some ds \<longrightarrow> d \<in> set ds \<longrightarrow> d \<in> dom deps)"

text \<open>
  The dependents registry is the inverse of the dependencies registry: a registered
  dependent comes from an edge, and every edge has its dependent registered. The lists may
  repeat an id.
\<close>

definition dependents_sound :: "dependents_repo \<Rightarrow> dependencies_repo \<Rightarrow> bool" where
  "dependents_sound dependents deps \<longleftrightarrow>
     (\<forall>n ms m. dependents n = Some ms \<longrightarrow> m \<in> set ms \<longrightarrow> (n, m) \<in> edges deps)"

definition dependents_complete :: "dependents_repo \<Rightarrow> dependencies_repo \<Rightarrow> bool" where
  "dependents_complete dependents deps \<longleftrightarrow>
     (\<forall>n m. (n, m) \<in> edges deps \<longrightarrow> (\<exists>ms. dependents n = Some ms \<and> m \<in> set ms))"

definition dependency_graph :: "dependents_repo \<Rightarrow> dependencies_repo \<Rightarrow> bool" where
  "dependency_graph dependents deps \<longleftrightarrow>
     finite (dom deps) \<and> closed deps \<and>
     dependents_sound dependents deps \<and> dependents_complete dependents deps"

text \<open>
  \<open>appears_before d c out\<close>: \<open>c\<close> occurs in \<open>out\<close> and \<open>d\<close> occurs before the first
  occurrence of \<open>c\<close>.
\<close>

definition appears_before :: "string \<Rightarrow> string \<Rightarrow> string list \<Rightarrow> bool" where
  "appears_before d c out \<longleftrightarrow> c \<in> set out \<and> d \<in> set (takeWhile (\<lambda>x. x \<noteq> c) out)"

text \<open>
  Following a chain of links: the ids met on the first \<open>k\<close> links that start at
  \<open>link_id\<close>.
\<close>

fun replay_links :: "(string \<rightharpoonup> string) \<Rightarrow> string \<Rightarrow> nat \<Rightarrow> string list" where
  "replay_links links link_id 0 = []"
| "replay_links links link_id (Suc k) =
     (case links link_id of None \<Rightarrow> [] | Some cid \<Rightarrow> cid # replay_links links cid k)"

text \<open>\<open>listed al d c\<close>: \<^verbatim>\<open>c in all_dependents[d]\<close>.\<close>

definition listed :: "(string \<times> string list) list \<Rightarrow> string \<Rightarrow> string \<Rightarrow> bool" where
  "listed al d c \<longleftrightarrow> (\<exists>ms. (d, ms) \<in> set al \<and> c \<in> set ms)"

section \<open>Invariants of the scheduler\<close>

text \<open>
  \<open>ordered\<close>: every id of the sequence has registered dependencies, all of them earlier
  in the sequence.
\<close>

definition ordered :: "dependencies_repo \<Rightarrow> string list \<Rightarrow> bool" where
  "ordered deps out \<longleftrightarrow>
     (\<forall>ys c zs. out = ys @ c # zs \<longrightarrow> (\<exists>ds. deps c = Some ds \<and> set ds \<subseteq> set ys))"

text \<open>
  With \<open>Y\<close> the ids yielded: the frontier has no duplicates, holds no yielded id and only
  ids whose dependencies are all yielded, and only yielded ids are in \<^verbatim>\<open>removed_edges\<close>.
\<close>

definition vinv :: "dependencies_repo \<Rightarrow> string set \<Rightarrow> string list \<Rightarrow> removed_edges \<Rightarrow> bool" where
  "vinv deps Y S R \<longleftrightarrow>
     distinct S \<and> set S \<inter> Y = {} \<and>
     (\<forall>m \<in> set S. \<exists>ds. deps m = Some ds \<and> set ds \<subseteq> Y) \<and>
     (\<forall>m. removed_of R m \<subseteq> Y)"

definition safe_inv :: "dependencies_repo \<Rightarrow> string list \<Rightarrow> removed_edges \<Rightarrow> string list \<Rightarrow> bool" where
  "safe_inv deps S R out \<longleftrightarrow>
     vinv deps (set out) S R \<and> distinct out \<and> ordered deps out"

text \<open>
  Between two iterations of the \<^verbatim>\<open>while\<close> loop (\<open>cinv\<close>): a call that is neither in the
  frontier nor yielded has exactly its yielded dependencies in \<^verbatim>\<open>removed_edges\<close>, and
  one of its dependencies is not yielded. While the dependents \<open>ms\<close> of the popped \<open>n\<close>
  are visited (\<open>winv\<close>), the edge from \<open>n\<close> is removed for the dependents already
  visited.
\<close>

definition winv ::
  "dependencies_repo \<Rightarrow> string set \<Rightarrow> string \<Rightarrow> string list \<Rightarrow> string list \<Rightarrow> removed_edges \<Rightarrow> bool" where
  "winv deps Y n ms S R \<longleftrightarrow>
     (\<forall>m ds. m \<notin> set S \<union> insert n Y \<longrightarrow> deps m = Some ds \<longrightarrow>
        set ds \<inter> Y \<subseteq> removed_of R m \<and> removed_of R m \<subseteq> set ds \<inter> insert n Y \<and>
        (n \<in> removed_of R m \<or> n \<notin> set ds \<or> m \<in> set ms) \<and>
        \<not> set ds \<subseteq> removed_of R m)"

definition cinv :: "dependencies_repo \<Rightarrow> string set \<Rightarrow> string list \<Rightarrow> removed_edges \<Rightarrow> bool" where
  "cinv deps Y S R \<longleftrightarrow>
     (\<forall>m ds. m \<notin> set S \<union> Y \<longrightarrow> deps m = Some ds \<longrightarrow>
        removed_of R m = set ds \<inter> Y \<and> \<not> set ds \<subseteq> Y)"

section \<open>Example inputs\<close>

definition empty_repos :: "(nat, int) repos" where
  "empty_repos =
     \<lparr>call_requirement_repo = Map.empty, call_dependencies_repo = Map.empty,
      call_dependents_repo = Map.empty, call_link_repo = Map.empty,
      call_result_repo = Map.empty, contract_valuation_repo = []\<rparr>"

text \<open>Two branches over one shared leaf (scenario D of the specification).\<close>

definition diamond_dependencies :: dependencies_repo where
  "diamond_dependencies =
     [''root'' \<mapsto> [''lb'', ''rb''], ''lb'' \<mapsto> [''a''], ''rb'' \<mapsto> [''a''], ''a'' \<mapsto> []]"

definition diamond_dependents :: dependents_repo where
  "diamond_dependents =
     [''a'' \<mapsto> [''lb'', ''rb''], ''lb'' \<mapsto> [''root''], ''rb'' \<mapsto> [''root''], ''root'' \<mapsto> []]"

text \<open>A leaf listed twice, with a dependent that is listed twice.\<close>

definition repeated_dependencies :: dependencies_repo where
  "repeated_dependencies = [''a'' \<mapsto> [], ''b'' \<mapsto> [''a'', ''a'']]"

definition repeated_dependents :: dependents_repo where
  "repeated_dependents = [''a'' \<mapsto> [''b'', ''b'']]"

text \<open>A graph in which \<open>x\<close> and \<open>y\<close> depend on each other.\<close>

definition cyclic_stubs :: "nat stubbed_call list" where
  "cyclic_stubs =
     [\<lparr>dsl_source = ''r'', effective_present_time = None, call_id = ''root'', dependencies = [''x'']\<rparr>,
      \<lparr>dsl_source = ''sx'', effective_present_time = None, call_id = ''x'', dependencies = [''a'', ''y'']\<rparr>,
      \<lparr>dsl_source = ''sy'', effective_present_time = None, call_id = ''y'', dependencies = [''x'']\<rparr>,
      \<lparr>dsl_source = ''sa'', effective_present_time = None, call_id = ''a'', dependencies = []\<rparr>]"

definition cyclic_repos :: "(nat, int) repos" where
  "cyclic_repos =
     \<lparr>call_requirement_repo =
        [''root'' \<mapsto> \<lparr>dsl_source = ''r'', effective_present_time = None\<rparr>,
         ''x'' \<mapsto> \<lparr>dsl_source = ''sx'', effective_present_time = None\<rparr>,
         ''y'' \<mapsto> \<lparr>dsl_source = ''sy'', effective_present_time = None\<rparr>,
         ''a'' \<mapsto> \<lparr>dsl_source = ''sa'', effective_present_time = None\<rparr>],
      call_dependencies_repo =
        [''root'' \<mapsto> [''x''], ''x'' \<mapsto> [''a'', ''y''], ''y'' \<mapsto> [''x''], ''a'' \<mapsto> []],
      call_dependents_repo =
        [''x'' \<mapsto> [''root'', ''y''], ''a'' \<mapsto> [''x''], ''y'' \<mapsto> [''x''], ''root'' \<mapsto> []],
      call_link_repo = Map.empty, call_result_repo = Map.empty, contract_valuation_repo = []\<rparr>"

text \<open>A root over one leaf: the stubs, the registries after assembly, and with the links.\<close>

definition chain_stubs :: "nat stubbed_call list" where
  "chain_stubs =
     [\<lparr>dsl_source = ''a + 1'', effective_present_time = None, call_id = ''root'', dependencies = [''a'']\<rparr>,
      \<lparr>dsl_source = ''1'', effective_present_time = Some 7, call_id = ''a'', dependencies = []\<rparr>]"

definition chain_registered :: "(nat, int) repos" where
  "chain_registered =
     \<lparr>call_requirement_repo =
        [''root'' \<mapsto> \<lparr>dsl_source = ''a + 1'', effective_present_time = None\<rparr>,
         ''a'' \<mapsto> \<lparr>dsl_source = ''1'', effective_present_time = Some 7\<rparr>],
      call_dependencies_repo = [''root'' \<mapsto> [''a''], ''a'' \<mapsto> []],
      call_dependents_repo = [''a'' \<mapsto> [''root''], ''root'' \<mapsto> []],
      call_link_repo = Map.empty, call_result_repo = Map.empty, contract_valuation_repo = []\<rparr>"

definition chain_repos :: "(nat, int) repos" where
  "chain_repos = chain_registered\<lparr>call_link_repo := [''root'' \<mapsto> ''a'', ''a'' \<mapsto> ''root'']\<rparr>"

text \<open>
  A market simulation without market names, and collaborators for the examples: the
  parser and the reduction return the source, evaluation returns the present time, and
  the replay follows two links. \<open>misordered_collaborators\<close> replays the root first.
\<close>

definition unnamed_simulation :: "(nat, nat) market_simulation" where
  "unnamed_simulation =
     \<lparr>simulation_id = ''sim'', market_names = [], observation_date = 3, interest_rate = 2\<rparr>"

definition replay_collaborators :: "(nat, nat, int, string, string) collaborators" where
  "replay_collaborators =
     \<lparr>dsl_parse = (\<lambda>src. Inr src),
      reduce_body = (\<lambda>stubbed_module dependency_values. Inr stubbed_module),
      evaluate = (\<lambda>dsl_expr kwds. Inr (int (present_time kwds))),
      regenerate_execution_order = (\<lambda>gid links. (replay_links links gid 2, None))\<rparr>"

definition misordered_collaborators :: "(nat, nat, int, string, string) collaborators" where
  "misordered_collaborators =
     replay_collaborators\<lparr>regenerate_execution_order := (\<lambda>gid links. ([''root'', ''a''], None))\<rparr>"

definition chain_kwds :: "nat \<Rightarrow> (nat, nat) evaluation_kwds" where
  "chain_kwds t =
     \<lparr>kwd_simulation_id = ''sim'', kwd_interest_rate = 2, present_time = t,
      first_market_name = None\<rparr>"

definition chain_valued :: "(nat, int) repos" where
  "chain_valued =
     chain_repos\<lparr>contract_valuation_repo := [''root''],
                 call_result_repo := [''a'' \<mapsto> 7, ''root'' \<mapsto> 3]\<rparr>"

section \<open>Properties of the scheduler\<close>

lemma removed_of_add: "removed_of (removed_add R m n) x = (if x = m then insert n (removed_of R m) else removed_of R x)"
  by (simp add: removed_add_def removed_of_def)

lemma removed_of_pop: "removed_of (R(m := None)) x = (if x = m then {} else removed_of R x)"
  by (simp add: removed_of_def)

lemma edgesD: "(d, c) \<in> edges deps \<Longrightarrow> \<exists>ds. deps c = Some ds \<and> d \<in> set ds"
  by (simp add: edges_def)

lemma visit_dependent_vinv:
  assumes "vinv deps Y S R" "n \<in> Y" "(n, m) \<in> edges deps" "m \<notin> Y"
  shows "\<exists>S' R'. visit_dependent deps n m (S, R) = Inr (S', R') \<and> vinv deps Y S' R' \<and> set S \<subseteq> set S'"
proof -
  from assms(3) obtain ds where ds: "deps m = Some ds" "n \<in> set ds" by (auto dest: edgesD)
  let ?R1 = "removed_add R m n"
  have R1: "\<forall>x. removed_of ?R1 x \<subseteq> Y"
    using assms(1,2) by (auto simp: vinv_def removed_of_add)
  show ?thesis
  proof (cases "list_all (\<lambda>d. d \<in> removed_of ?R1 m) ds")
    case True
    then have sub: "set ds \<subseteq> Y" using R1 by (auto simp: list_all_iff)
    have eq: "visit_dependent deps n m (S, R) = Inr (set_add m S, ?R1(m := None))"
      using True ds by (simp add: visit_dependent_def repo_get_def Let_def)
    have "vinv deps Y (set_add m S) (?R1(m := None))"
      using assms(1,4) sub ds R1 unfolding vinv_def set_add_def
      by (auto simp: removed_of_pop)
    then show ?thesis using eq by (auto simp: set_add_def)
  next
    case False
    have eq: "visit_dependent deps n m (S, R) = Inr (S, ?R1)"
      using False ds by (simp add: visit_dependent_def repo_get_def Let_def)
    have "vinv deps Y S ?R1" using assms(1) R1 unfolding vinv_def by auto
    then show ?thesis using eq by auto
  qed
qed

lemma visit_dependents_vinv:
  assumes "vinv deps Y S R" "n \<in> Y" "\<forall>m \<in> set ms. (n, m) \<in> edges deps \<and> m \<notin> Y"
  shows "\<exists>S' R'. visit_dependents deps n ms (S, R) = Inr (S', R') \<and> vinv deps Y S' R' \<and> set S \<subseteq> set S'"
  using assms
proof (induction ms arbitrary: S R)
  case Nil
  then show ?case by simp
next
  case (Cons m ms)
  from Cons.prems obtain S1 R1 where
    1: "visit_dependent deps n m (S, R) = Inr (S1, R1)" "vinv deps Y S1 R1" "set S \<subseteq> set S1"
    using visit_dependent_vinv[of deps Y S R n m] by auto
  from Cons.IH[OF 1(2) Cons.prems(2)] Cons.prems(3) obtain S2 R2 where
    2: "visit_dependents deps n ms (S1, R1) = Inr (S2, R2)" "vinv deps Y S2 R2" "set S1 \<subseteq> set S2"
    by auto
  show ?case using 1 2 by auto
qed

lemma visit_dependent_winv:
  assumes "winv deps Y n (m # ms) S R" "visit_dependent deps n m (S, R) = Inr (S', R')"
    "(n, m) \<in> edges deps"
  shows "winv deps Y n ms S' R'"
proof -
  from assms(3) obtain ds where ds: "deps m = Some ds" "n \<in> set ds" by (auto dest: edgesD)
  let ?R1 = "removed_add R m n"
  show ?thesis
  proof (cases "list_all (\<lambda>d. d \<in> removed_of ?R1 m) ds")
    case True
    then have eq: "S' = set_add m S" "R' = ?R1(m := None)"
      using assms(2) ds by (simp_all add: visit_dependent_def repo_get_def Let_def)
    show ?thesis unfolding winv_def
    proof (intro allI impI)
      fix x xs assume x: "x \<notin> set S' \<union> insert n Y" "deps x = Some xs"
      then have "x \<noteq> m" "x \<notin> set S \<union> insert n Y" using eq by (auto simp: set_add_def split: if_splits)
      then show "set xs \<inter> Y \<subseteq> removed_of R' x \<and> removed_of R' x \<subseteq> set xs \<inter> insert n Y \<and>
        (n \<in> removed_of R' x \<or> n \<notin> set xs \<or> x \<in> set ms) \<and> \<not> set xs \<subseteq> removed_of R' x"
        using assms(1) x(2) eq unfolding winv_def
        by (simp add: removed_of_pop removed_of_add) (metis set_ConsD)
    qed
  next
    case False
    then have eq: "S' = S" "R' = ?R1"
      using assms(2) ds by (simp_all add: visit_dependent_def repo_get_def Let_def)
    show ?thesis unfolding winv_def
    proof (intro allI impI)
      fix x xs assume x: "x \<notin> set S' \<union> insert n Y" "deps x = Some xs"
      show "set xs \<inter> Y \<subseteq> removed_of R' x \<and> removed_of R' x \<subseteq> set xs \<inter> insert n Y \<and>
        (n \<in> removed_of R' x \<or> n \<notin> set xs \<or> x \<in> set ms) \<and> \<not> set xs \<subseteq> removed_of R' x"
      proof (cases "x = m")
        case True
        with x ds have xs: "xs = ds" by simp
        have "\<not> set ds \<subseteq> removed_of ?R1 m" using False by (auto simp: list_all_iff)
        moreover have "set ds \<inter> Y \<subseteq> removed_of R m \<and> removed_of R m \<subseteq> set ds \<inter> insert n Y"
          using assms(1) x ds True eq unfolding winv_def by blast
        ultimately show ?thesis using True xs eq ds by (auto simp: removed_of_add)
      next
        case F: False
        then show ?thesis using assms(1) x eq unfolding winv_def
          by (simp add: removed_of_add) (metis set_ConsD)
      qed
    qed
  qed
qed

lemma visit_dependents_winv:
  assumes "winv deps Y n ms S R" "visit_dependents deps n ms (S, R) = Inr (S', R')"
    "\<forall>m \<in> set ms. (n, m) \<in> edges deps"
  shows "winv deps Y n [] S' R'"
  using assms
proof (induction ms arbitrary: S R)
  case Nil
  then show ?case by simp
next
  case (Cons m ms)
  from Cons.prems(2) obtain S1 R1 where
    1: "visit_dependent deps n m (S, R) = Inr (S1, R1)"
       "visit_dependents deps n ms (S1, R1) = Inr (S', R')"
    by (auto split: sum.splits)
  have "winv deps Y n ms S1 R1"
    using visit_dependent_winv[OF Cons.prems(1) 1(1)] Cons.prems(3) by simp
  then show ?case using Cons.IH 1(2) Cons.prems(3) by simp
qed

lemma winv_final: "winv deps Y n [] S R \<Longrightarrow> cinv deps (insert n Y) S R"
  unfolding winv_def cinv_def by (simp, blast)

lemma cinv_start:
  assumes "cinv deps Y S R" "n \<in> set S" "\<forall>m. (n, m) \<in> edges deps \<longrightarrow> m \<in> set ms"
  shows "winv deps Y n ms (removeAll n S) R"
  unfolding winv_def
proof (intro allI impI)
  fix m ds assume m: "m \<notin> set (removeAll n S) \<union> insert n Y" "deps m = Some ds"
  then have "m \<notin> set S \<union> Y" by auto
  then have *: "removed_of R m = set ds \<inter> Y \<and> \<not> set ds \<subseteq> Y" using assms(1) m(2) unfolding cinv_def by blast
  have "n \<in> set ds \<Longrightarrow> m \<in> set ms" using assms(3) m(2) by (auto simp: edges_def)
  then show "set ds \<inter> Y \<subseteq> removed_of R m \<and> removed_of R m \<subseteq> set ds \<inter> insert n Y \<and>
        (n \<in> removed_of R m \<or> n \<notin> set ds \<or> m \<in> set ms) \<and> \<not> set ds \<subseteq> removed_of R m"
    using * by auto
qed

lemma ordered_snoc:
  assumes "ordered deps out" "deps n = Some ds" "set ds \<subseteq> set out"
  shows "ordered deps (out @ [n])"
  unfolding ordered_def
proof (intro allI impI)
  fix ys c zs assume eq: "out @ [n] = ys @ c # zs"
  show "\<exists>ds. deps c = Some ds \<and> set ds \<subseteq> set ys"
  proof (cases zs rule: rev_cases)
    case Nil
    with eq have "ys = out" "c = n" by auto
    then show ?thesis using assms by simp
  next
    case (snoc zs' z)
    with eq have "out = ys @ c # zs'" by simp
    then show ?thesis using assms(1) unfolding ordered_def by blast
  qed
qed

lemma safe_inv_pop:
  assumes "safe_inv deps S R out" "n \<in> set S"
  shows "safe_inv deps (removeAll n S) R (out @ [n])"
proof -
  from assms obtain ds where ds: "deps n = Some ds" "set ds \<subseteq> set out" and nout: "n \<notin> set out"
    unfolding safe_inv_def vinv_def by blast
  have "vinv deps (set (out @ [n])) (removeAll n S) R"
    using assms unfolding safe_inv_def vinv_def by (auto simp: distinct_removeAll) blast+
  moreover have "distinct (out @ [n])" using assms nout unfolding safe_inv_def by simp
  moreover have "ordered deps (out @ [n])" using ordered_snoc ds assms unfolding safe_inv_def by blast
  ultimately show ?thesis unfolding safe_inv_def by simp
qed

lemma safe_inv_edge_fresh:
  assumes "safe_inv deps S R out" "n \<in> set S" "(n, m) \<in> edges deps"
  shows "m \<notin> set (out @ [n])"
proof -
  have nout: "n \<notin> set out" using assms(1,2) unfolding safe_inv_def vinv_def by blast
  have "\<And>x. x \<in> set S \<union> set out \<Longrightarrow> (n, x) \<notin> edges deps"
  proof
    fix x assume x: "x \<in> set S \<union> set out" "(n, x) \<in> edges deps"
    have "\<exists>ds. deps x = Some ds \<and> set ds \<subseteq> set out"
    proof (cases "x \<in> set S")
      case True then show ?thesis using assms(1) unfolding safe_inv_def vinv_def by blast
    next
      case False
      then have "x \<in> set out" using x by simp
      then obtain ys zs where "out = ys @ x # zs" by (auto simp: in_set_conv_decomp)
      then show ?thesis using assms(1) unfolding safe_inv_def ordered_def by fastforce
    qed
    then show False using x(2) nout by (auto simp: edges_def)
  qed
  then show ?thesis using assms(2,3) by auto
qed

lemma safe_inv_visit:
  assumes "safe_inv deps S R out" "n \<in> set S" "dependents_sound dependents deps"
    "dependents n = Some ms"
  shows "\<exists>S2 R2. visit_dependents deps n ms (removeAll n S, R) = Inr (S2, R2) \<and>
           safe_inv deps S2 R2 (out @ [n])"
proof -
  have p: "safe_inv deps (removeAll n S) R (out @ [n])" using safe_inv_pop assms by blast
  have e: "\<forall>m \<in> set ms. (n, m) \<in> edges deps \<and> m \<notin> set (out @ [n])"
    using assms safe_inv_edge_fresh unfolding dependents_sound_def by blast
  have "vinv deps (set (out @ [n])) (removeAll n S) R" using p unfolding safe_inv_def by simp
  from visit_dependents_vinv[OF this _ e] obtain S2 R2 where
    "visit_dependents deps n ms (removeAll n S, R) = Inr (S2, R2)" "vinv deps (set (out @ [n])) S2 R2"
    by auto
  then show ?thesis using p unfolding safe_inv_def by auto
qed

text \<open>Safety: what any returned sequence satisfies.\<close>

lemma execution_loop_safe:
  assumes "dependents_sound dependents deps" "safe_inv deps S R out"
    "execution_loop dependents deps cs S R out = Some (out', err)"
  shows "err = None \<and> distinct out' \<and> ordered deps out' \<and> set out \<subseteq> set out'"
  using assms(2,3)
proof (induction cs arbitrary: S R out)
  case Nil
  then show ?case by (auto simp: safe_inv_def split: if_splits)
next
  case (Cons c cs)
  show ?case
  proof (cases "S = []")
    case True
    then show ?thesis using Cons.prems by (auto simp: safe_inv_def)
  next
    case False
    let ?n = "S ! (c mod length S)"
    have n: "?n \<in> set S" using False by simp
    show ?thesis
    proof (cases "dependents ?n")
      case None
      then have "execution_loop dependents deps cs (removeAll ?n S) R (out @ [?n]) = Some (out', err)"
        using Cons.prems(2) False by (simp add: repo_get_def Let_def)
      from Cons.IH[OF safe_inv_pop[OF Cons.prems(1) n] this] show ?thesis by simp
    next
      case (Some ms)
      from safe_inv_visit[OF Cons.prems(1) n assms(1) Some] obtain S2 R2 where
        v: "visit_dependents deps ?n ms (removeAll ?n S, R) = Inr (S2, R2)"
           "safe_inv deps S2 R2 (out @ [?n])" by blast
      then have "execution_loop dependents deps cs S2 R2 (out @ [?n]) = Some (out', err)"
        using Cons.prems(2) False Some by (simp add: repo_get_def Let_def)
      from Cons.IH[OF v(2) this] show ?thesis by simp
    qed
  qed
qed

text \<open>Termination: one number per registered call is enough.\<close>

lemma safe_inv_card:
  assumes "safe_inv deps S R out" "finite (dom deps)" "S \<noteq> []"
  shows "length out < card (dom deps)"
proof -
  have d: "distinct out" using assms(1) unfolding safe_inv_def by simp
  have "set out \<subseteq> dom deps"
  proof
    fix x assume "x \<in> set out"
    then obtain ys zs where "out = ys @ x # zs" by (auto simp: in_set_conv_decomp)
    then show "x \<in> dom deps" using assms(1) unfolding safe_inv_def ordered_def by fastforce
  qed
  moreover have "hd S \<in> dom deps" "hd S \<notin> set out"
    using assms(1,3) unfolding safe_inv_def vinv_def by (auto simp: disjoint_iff)
  ultimately have "set out \<subset> dom deps" by auto
  then have "card (set out) < card (dom deps)" using assms(2) by (simp add: psubset_card_mono)
  then show ?thesis using d by (simp add: distinct_card)
qed

lemma execution_loop_terminates:
  assumes "dependents_sound dependents deps" "finite (dom deps)"
    "safe_inv deps S R out" "card (dom deps) \<le> length out + length cs"
  shows "execution_loop dependents deps cs S R out \<noteq> None"
  using assms(3,4)
proof (induction cs arbitrary: S R out)
  case Nil
  then show ?case using safe_inv_card[OF Nil(1) assms(2)] by auto
next
  case (Cons c cs)
  show ?case
  proof (cases "S = []")
    case True
    then show ?thesis by simp
  next
    case False
    let ?n = "S ! (c mod length S)"
    have n: "?n \<in> set S" using False by simp
    have l: "card (dom deps) \<le> length (out @ [?n]) + length cs" using Cons.prems(2) by simp
    show ?thesis
    proof (cases "dependents ?n")
      case None
      from Cons.IH[OF safe_inv_pop[OF Cons.prems(1) n] l] show ?thesis
        using False None by (simp add: repo_get_def Let_def)
    next
      case (Some ms)
      from safe_inv_visit[OF Cons.prems(1) n assms(1) Some] obtain S2 R2 where
        v: "visit_dependents deps ?n ms (removeAll ?n S, R) = Inr (S2, R2)"
           "safe_inv deps S2 R2 (out @ [?n])" by blast
      from Cons.IH[OF v(2) l] show ?thesis
        using False Some v(1) by (simp add: repo_get_def Let_def)
    qed
  qed
qed

text \<open>Completeness: what is left out when the frontier is empty.\<close>

lemma execution_loop_stuck:
  assumes "dependents_sound dependents deps" "dependents_complete dependents deps"
    "safe_inv deps S R out" "cinv deps (set out) S R"
    "execution_loop dependents deps cs S R out = Some (out', err)"
  shows "\<forall>m ds. m \<notin> set out' \<longrightarrow> deps m = Some ds \<longrightarrow> \<not> set ds \<subseteq> set out'"
  using assms(3,4,5)
proof (induction cs arbitrary: S R out)
  case Nil
  then show ?case by (auto simp: cinv_def split: if_splits)
next
  case (Cons c cs)
  show ?case
  proof (cases "S = []")
    case True
    then show ?thesis using Cons.prems by (auto simp: cinv_def)
  next
    case False
    let ?n = "S ! (c mod length S)"
    have n: "?n \<in> set S" using False by simp
    show ?thesis
    proof (cases "dependents ?n")
      case None
      then have "\<forall>m. (?n, m) \<in> edges deps \<longrightarrow> m \<in> set []"
        using assms(2) unfolding dependents_complete_def by fastforce
      from winv_final[OF cinv_start[OF Cons.prems(2) n this]]
      have c: "cinv deps (set (out @ [?n])) (removeAll ?n S) R" by simp
      have "execution_loop dependents deps cs (removeAll ?n S) R (out @ [?n]) = Some (out', err)"
        using None Cons.prems(3) False by (simp add: repo_get_def Let_def)
      from Cons.IH[OF safe_inv_pop[OF Cons.prems(1) n] c this] show ?thesis .
    next
      case (Some ms)
      from safe_inv_visit[OF Cons.prems(1) n assms(1) Some] obtain S2 R2 where
        v: "visit_dependents deps ?n ms (removeAll ?n S, R) = Inr (S2, R2)"
           "safe_inv deps S2 R2 (out @ [?n])" by blast
      have "\<forall>m. (?n, m) \<in> edges deps \<longrightarrow> m \<in> set ms"
        using assms(2) Some unfolding dependents_complete_def by fastforce
      from cinv_start[OF Cons.prems(2) n this]
      have w: "winv deps (set out) ?n ms (removeAll ?n S) R" .
      have "\<forall>m \<in> set ms. (?n, m) \<in> edges deps"
        using assms(1) Some unfolding dependents_sound_def by blast
      from winv_final[OF visit_dependents_winv[OF w v(1) this]]
      have c: "cinv deps (set (out @ [?n])) S2 R2" by simp
      have "execution_loop dependents deps cs S2 R2 (out @ [?n]) = Some (out', err)"
        using Some v(1) Cons.prems(3) False by (simp add: repo_get_def Let_def)
      from Cons.IH[OF v(2) c this] show ?thesis .
    qed
  qed
qed

lemma safe_inv_init:
  assumes "\<forall>c \<in> set leaf_call_ids. deps c = Some []"
  shows "safe_inv deps (remdups leaf_call_ids) Map.empty []"
  using assms unfolding safe_inv_def vinv_def ordered_def removed_of_def by simp

lemma cinv_init:
  assumes "set leaf_call_ids = {c. deps c = Some []}"
  shows "cinv deps (set []) (remdups leaf_call_ids) Map.empty"
  using assms unfolding cinv_def removed_of_def by auto

lemma ordered_dom: "ordered deps out \<Longrightarrow> set out \<subseteq> dom deps"
proof
  fix x assume "ordered deps out" "x \<in> set out"
  then obtain ys zs where "out = ys @ x # zs" by (auto simp: in_set_conv_decomp)
  then show "x \<in> dom deps" using \<open>ordered deps out\<close> unfolding ordered_def by fastforce
qed

lemma finite_edges:
  assumes "finite (dom deps)" "closed deps"
  shows "finite (edges deps)"
proof -
  have "edges deps \<subseteq> dom deps \<times> dom deps"
    using assms(2) unfolding edges_def closed_def by auto
  then show ?thesis using assms(1) by (meson finite_SigmaI finite_subset)
qed

lemma stuck_all_yielded:
  assumes "finite (dom deps)" "closed deps" "acyclic (edges deps)"
    "set out \<subseteq> dom deps"
    "\<forall>m ds. m \<notin> set out \<longrightarrow> deps m = Some ds \<longrightarrow> \<not> set ds \<subseteq> set out"
  shows "set out = dom deps"
proof (rule ccontr)
  assume "set out \<noteq> dom deps"
  then obtain u where u: "u \<in> dom deps - set out" using assms(4) by auto
  have "wf (edges deps)" using finite_edges[OF assms(1,2)] assms(3) by (rule finite_acyclic_wf)
  from wfE_min[OF this u] obtain z where
    z: "z \<in> dom deps - set out" "\<And>y. (y, z) \<in> edges deps \<Longrightarrow> y \<notin> dom deps - set out" by blast
  then obtain ds where ds: "deps z = Some ds" by auto
  with z(1) assms(5) obtain d where d: "d \<in> set ds" "d \<notin> set out" by blast
  have "d \<in> dom deps" using assms(2) ds d(1) unfolding closed_def by blast
  moreover have "(d, z) \<in> edges deps" using ds d(1) by (auto simp: edges_def)
  ultimately show False using z(2) d(2) by blast
qed

lemma ordered_edge_before:
  assumes "ordered deps out" "distinct out" "(d, c) \<in> edges deps" "c \<in> set out"
  shows "appears_before d c out"
proof -
  from assms(4) obtain ys zs where out: "out = ys @ c # zs" by (auto simp: in_set_conv_decomp)
  with assms(2) have "c \<notin> set ys" by auto
  then have "takeWhile (\<lambda>x. x \<noteq> c) out = ys" unfolding out
    by (subst takeWhile_append2) auto
  moreover have "d \<in> set ys" using assms(1,3) out unfolding ordered_def edges_def by fastforce
  ultimately show ?thesis using assms(4) by (simp add: appears_before_def)
qed

lemma appears_before_trans:
  assumes "appears_before d y out" "appears_before y c out"
  shows "appears_before d c out"
proof -
  let ?ys = "takeWhile (\<lambda>x. x \<noteq> c) out"
  have y: "y \<in> set ?ys" using assms(2) by (simp add: appears_before_def)
  have "out = ?ys @ dropWhile (\<lambda>x. x \<noteq> c) out" by simp
  then have "takeWhile (\<lambda>x. x \<noteq> y) out = takeWhile (\<lambda>x. x \<noteq> y) ?ys"
    using y by (metis (mono_tags, lifting) takeWhile_append1)
  then have "set (takeWhile (\<lambda>x. x \<noteq> y) out) \<subseteq> set ?ys" by (metis set_takeWhileD subsetI)
  then show ?thesis using assms by (auto simp: appears_before_def)
qed

lemma appears_before_irrefl: "\<not> appears_before x x out"
  by (auto simp: appears_before_def dest: set_takeWhileD)

lemma ordered_path_before:
  assumes "ordered deps out" "distinct out" "(d, c) \<in> (edges deps)\<^sup>+"
  shows "c \<in> set out \<longrightarrow> appears_before d c out"
  using assms(3)
proof (induction rule: trancl_induct)
  case (base y)
  then show ?case using ordered_edge_before[OF assms(1,2)] by blast
next
  case (step y z)
  show ?case
  proof
    assume z: "z \<in> set out"
    have yz: "appears_before y z out" using ordered_edge_before[OF assms(1,2) step(2) z] .
    then have "y \<in> set out" by (auto simp: appears_before_def dest: set_takeWhileD)
    then have "appears_before d y out" using step.IH by simp
    then show "appears_before d z out" using yz appears_before_trans by blast
  qed
qed

lemma generate_execution_order_returns:
  assumes "dependency_graph dependents deps" "set leaf_call_ids = {c. deps c = Some []}"
    "card (dom deps) \<le> length pops"
  shows "\<exists>out. generate_execution_order pops leaf_call_ids dependents deps = Some (out, None) \<and>
           distinct out \<and> ordered deps out \<and>
           (\<forall>m ds. m \<notin> set out \<longrightarrow> deps m = Some ds \<longrightarrow> \<not> set ds \<subseteq> set out)"
proof -
  have s: "dependents_sound dependents deps" and c: "dependents_complete dependents deps"
    and f: "finite (dom deps)" using assms(1) unfolding dependency_graph_def by simp_all
  have i: "safe_inv deps (remdups leaf_call_ids) Map.empty []"
    using assms(2) by (intro safe_inv_init) auto
  have "execution_loop dependents deps pops (remdups leaf_call_ids) Map.empty [] \<noteq> None"
    using execution_loop_terminates[OF s f i] assms(3) by simp
  then obtain out err where
    r: "execution_loop dependents deps pops (remdups leaf_call_ids) Map.empty [] = Some (out, err)"
    by auto
  from execution_loop_safe[OF s i r] execution_loop_stuck[OF s c i cinv_init[OF assms(2)] r]
  show ?thesis using r unfolding generate_execution_order_def by auto
qed

text \<open>With a cycle, no call on the cycle is yielded.\<close>

lemma cyclic_order_strict_subset:
  assumes "dependency_graph dependents deps" "\<not> acyclic (edges deps)"
    "set leaf_call_ids = {c. deps c = Some []}" "card (dom deps) \<le> length pops"
  shows "\<exists>out. generate_execution_order pops leaf_call_ids dependents deps = Some (out, None) \<and>
           distinct out \<and> set out \<subset> dom deps"
proof -
  from generate_execution_order_returns[OF assms(1,3,4)] obtain out where
    o: "generate_execution_order pops leaf_call_ids dependents deps = Some (out, None)"
       "distinct out" "ordered deps out" by blast
  from assms(2) obtain x where x: "(x, x) \<in> (edges deps)\<^sup>+" by (auto simp: acyclic_def)
  have "x \<notin> set out" using ordered_path_before[OF o(3,2) x] appears_before_irrefl by blast
  moreover have "x \<in> dom deps" using x by (auto simp: edges_def dest!: tranclD2)
  ultimately have "set out \<subset> dom deps" using ordered_dom[OF o(3)] by blast
  then show ?thesis using o by blast
qed

section \<open>Properties of the assembler\<close>

lemma repo_put_Inr:
  "repo_put r k v = Inr r' \<Longrightarrow> r' = r(k \<mapsto> v) \<and> (r k = None \<or> r k = Some v)"
  by (auto simp: repo_put_def split: option.splits if_splits)

lemma register_call_dependents_Inr:
  assumes "register_call_dependents c ms st = Inr st'"
  shows "st' = st\<lparr>call_dependents_repo := (call_dependents_repo st)(c \<mapsto> ms)\<rparr>"
    and "call_dependents_repo st c = None \<or> call_dependents_repo st c = Some ms"
  using assms by (auto simp: register_call_dependents_def split: sum.splits dest!: repo_put_Inr)

lemma register_call_link_Inr:
  assumes "register_call_link l c st = Inr st'"
  shows "st' = st\<lparr>call_link_repo := (call_link_repo st)(l \<mapsto> c)\<rparr>"
    and "call_link_repo st l = None \<or> call_link_repo st l = Some c"
  using assms by (auto simp: register_call_link_def split: sum.splits dest!: repo_put_Inr)

lemma register_call_requirement_Inr:
  assumes "register_call_requirement c src ept st = Inr st'"
  shows "\<exists>r. st' = st\<lparr>call_requirement_repo := r\<rparr>"
  using assms by (auto simp: register_call_requirement_def split: sum.splits)

lemma register_call_dependencies_Inr:
  assumes "register_call_dependencies c ds st = Inr st'"
  shows "st' = st\<lparr>call_dependencies_repo := (call_dependencies_repo st)(c \<mapsto> ds)\<rparr>"
  using assms by (auto simp: register_call_dependencies_def split: sum.splits dest!: repo_put_Inr)

lemma append_dependent_keys: "fst ` set (append_dependent d c al) = insert d (fst ` set al)"
  by (induction d c al rule: append_dependent.induct) auto

lemma append_dependent_listed: "listed (append_dependent d c al) d c"
  by (induction d c al rule: append_dependent.induct) (auto simp: listed_def)

lemma append_dependent_keeps: "listed al d' c' \<Longrightarrow> listed (append_dependent d c al) d' c'"
  by (induction d c al rule: append_dependent.induct) (auto simp: listed_def)

lemma track_dependents_keys: "fst ` set (track_dependents c ds al) = set ds \<union> fst ` set al"
  by (induction c ds al rule: track_dependents.induct) (auto simp: append_dependent_keys)

lemma track_dependents_keeps: "listed al d' c' \<Longrightarrow> listed (track_dependents c ds al) d' c'"
  by (induction c ds al rule: track_dependents.induct) (auto simp: append_dependent_keeps)

lemma track_dependents_listed: "d \<in> set ds \<Longrightarrow> listed (track_dependents c ds al) d c"
  by (induction c ds al rule: track_dependents.induct)
     (auto simp: append_dependent_listed track_dependents_keeps)

lemma register_stubs_result:
  assumes "register_stubs stubs leaves al st = Inr (leaves', al', st')"
  shows "call_dependents_repo st' = call_dependents_repo st \<and>
         call_link_repo st' = call_link_repo st \<and>
         leaves' = leaves @ map call_id (filter (\<lambda>s. dependencies s = []) stubs) \<and>
         fst ` set al' = fst ` set al \<union> (\<Union>s \<in> set stubs. set (dependencies s)) \<and>
         (\<forall>d c. listed al d c \<longrightarrow> listed al' d c) \<and>
         (\<forall>s \<in> set stubs. \<forall>d \<in> set (dependencies s). listed al' d (call_id s))"
  using assms
proof (induction stubs arbitrary: leaves al st)
  case Nil
  then show ?case by simp
next
  case (Cons s stubs)
  from Cons.prems obtain st1 st2 where
    r: "register_call_requirement (call_id s) (dsl_source s) (effective_present_time s) st = Inr st1"
       "register_call_dependencies (call_id s) (dependencies s) st1 = Inr st2"
    by (auto split: sum.splits)
  have f: "call_dependents_repo st2 = call_dependents_repo st" "call_link_repo st2 = call_link_repo st"
    using register_call_requirement_Inr[OF r(1)] register_call_dependencies_Inr[OF r(2)] by auto
  let ?al = "if dependencies s = [] then al else track_dependents (call_id s) (dependencies s) al"
  let ?lv = "if dependencies s = [] then leaves @ [call_id s] else leaves"
  have rec: "register_stubs stubs ?lv ?al st2 = Inr (leaves', al', st')"
    using Cons.prems r by (auto split: if_splits)
  note IH = Cons.IH[OF rec]
  have 1: "call_dependents_repo st' = call_dependents_repo st" using IH f by simp
  have 2: "call_link_repo st' = call_link_repo st" using IH f by simp
  have 3: "leaves' = leaves @ map call_id (filter (\<lambda>s. dependencies s = []) (s # stubs))"
    using IH by simp
  have 4: "fst ` set al' = fst ` set al \<union> (\<Union>s \<in> set (s # stubs). set (dependencies s))"
    using IH by (auto simp: track_dependents_keys)
  have 5: "\<forall>d c. listed al d c \<longrightarrow> listed al' d c"
    using IH by (auto simp: track_dependents_keeps)
  have "\<forall>d \<in> set (dependencies s). listed ?al d (call_id s)"
    by (auto simp: track_dependents_listed)
  then have "\<forall>d \<in> set (dependencies s). listed al' d (call_id s)" using IH by blast
  then have 6: "\<forall>x \<in> set (s # stubs). \<forall>d \<in> set (dependencies x). listed al' d (call_id x)"
    using IH by simp
  show ?case using 1 2 3 4 5 6 by blast
qed

lemma register_all_dependents_result:
  assumes "register_all_dependents al st = Inr st'"
  shows "(\<forall>(k, ms) \<in> set al. call_dependents_repo st' k = Some ms) \<and>
         (\<forall>k. k \<notin> fst ` set al \<longrightarrow> call_dependents_repo st' k = call_dependents_repo st k) \<and>
         (\<forall>k x. call_dependents_repo st k = Some x \<longrightarrow> call_dependents_repo st' k = Some x) \<and>
         call_dependencies_repo st' = call_dependencies_repo st \<and>
         call_link_repo st' = call_link_repo st"
  using assms
proof (induction al arbitrary: st)
  case Nil
  then show ?case by simp
next
  case (Cons a al)
  obtain k ms where a: "a = (k, ms)" by (cases a)
  from Cons.prems a obtain st1 where
    r: "register_call_dependents k ms st = Inr st1" "register_all_dependents al st1 = Inr st'"
    by (auto split: sum.splits)
  note h = register_call_dependents_Inr[OF r(1)]
  note IH = Cons.IH[OF r(2)]
  have k: "call_dependents_repo st1 k = Some ms" using h(1) by simp
  have 1: "\<forall>(k, ms) \<in> set (a # al). call_dependents_repo st' k = Some ms" using IH k a by auto
  have 2: "\<forall>x. x \<notin> fst ` set (a # al) \<longrightarrow> call_dependents_repo st' x = call_dependents_repo st x"
    using IH h(1) a by auto
  have "\<forall>k x. call_dependents_repo st k = Some x \<longrightarrow> call_dependents_repo st1 k = Some x"
    using h by auto
  then have 3: "\<forall>k x. call_dependents_repo st k = Some x \<longrightarrow> call_dependents_repo st' k = Some x"
    using IH by blast
  have 4: "call_dependencies_repo st' = call_dependencies_repo st" using IH h(1) by simp
  have 5: "call_link_repo st' = call_link_repo st" using IH h(1) by simp
  show ?case using 1 2 3 4 5 by blast
qed

lemma register_call_links_result:
  assumes "register_call_links l out st = Inr st'"
  shows "(\<forall>i < length out. call_link_repo st' ((l # out) ! i) = Some (out ! i)) \<and>
         (\<forall>k x. call_link_repo st k = Some x \<longrightarrow> call_link_repo st' k = Some x) \<and>
         call_dependents_repo st' = call_dependents_repo st \<and>
         call_dependencies_repo st' = call_dependencies_repo st"
  using assms
proof (induction out arbitrary: l st)
  case Nil
  then show ?case by simp
next
  case (Cons c out)
  from Cons.prems obtain st1 where
    r: "register_call_link l c st = Inr st1" "register_call_links c out st1 = Inr st'"
    by (auto split: sum.splits)
  note h = register_call_link_Inr[OF r(1)]
  note IH = Cons.IH[OF r(2)]
  have k: "call_link_repo st1 l = Some c" using h(1) by simp
  have 1: "\<forall>i < length (c # out). call_link_repo st' ((l # c # out) ! i) = Some ((c # out) ! i)"
  proof (intro allI impI)
    fix i assume i: "i < length (c # out)"
    show "call_link_repo st' ((l # c # out) ! i) = Some ((c # out) ! i)"
    proof (cases i)
      case 0 then show ?thesis using IH k by simp
    next
      case (Suc j) then show ?thesis using IH i by simp
    qed
  qed
  have "\<forall>k x. call_link_repo st k = Some x \<longrightarrow> call_link_repo st1 k = Some x"
    using h by auto
  then have 2: "\<forall>k x. call_link_repo st k = Some x \<longrightarrow> call_link_repo st' k = Some x"
    using IH by blast
  have 3: "call_dependents_repo st' = call_dependents_repo st" using IH h(1) by simp
  have 4: "call_dependencies_repo st' = call_dependencies_repo st" using IH h(1) by simp
  show ?case using 1 2 3 4 by blast
qed


lemma register_graph_result:
  assumes "register_graph sid stubs st = Inr (leaves, st3)"
  shows "leaves = map call_id (filter (\<lambda>s. dependencies s = []) stubs) \<and>
         (\<forall>s \<in> set stubs. \<forall>d \<in> set (dependencies s).
            \<exists>ms. call_dependents_repo st3 d = Some ms \<and> call_id s \<in> set ms) \<and>
         (\<forall>x. x \<noteq> sid \<longrightarrow> (\<forall>s \<in> set stubs. x \<notin> set (dependencies s)) \<longrightarrow>
            call_dependents_repo st3 x = call_dependents_repo st x) \<and>
         call_dependents_repo st3 sid = Some []"
proof -
  from assms obtain al st1 st2 where
    r: "register_stubs stubs [] [] st = Inr (leaves, al, st1)"
       "register_all_dependents al st1 = Inr st2"
       "register_call_dependents sid [] st2 = Inr st3"
    by (auto simp: register_graph_def split: sum.splits)
  note a = register_stubs_result[OF r(1)]
  note b = register_all_dependents_result[OF r(2)]
  note c = register_call_dependents_Inr[OF r(3)]
  have keys: "fst ` set al = (\<Union>s \<in> set stubs. set (dependencies s))" using a by simp
  have 1: "leaves = map call_id (filter (\<lambda>s. dependencies s = []) stubs)" using a by simp
  have 2: "\<forall>s \<in> set stubs. \<forall>d \<in> set (dependencies s).
            \<exists>ms. call_dependents_repo st3 d = Some ms \<and> call_id s \<in> set ms"
  proof (intro ballI)
    fix s d assume "s \<in> set stubs" "d \<in> set (dependencies s)"
    then have "listed al d (call_id s)" using a by blast
    then obtain ms where ms: "(d, ms) \<in> set al" "call_id s \<in> set ms" by (auto simp: listed_def)
    then have "call_dependents_repo st2 d = Some ms" using b by blast
    then have "call_dependents_repo st3 d = Some ms" using c by auto
    then show "\<exists>ms. call_dependents_repo st3 d = Some ms \<and> call_id s \<in> set ms" using ms by blast
  qed
  have 3: "\<forall>x. x \<noteq> sid \<longrightarrow> (\<forall>s \<in> set stubs. x \<notin> set (dependencies s)) \<longrightarrow>
            call_dependents_repo st3 x = call_dependents_repo st x"
  proof (intro allI impI)
    fix x assume x: "x \<noteq> sid" "\<forall>s \<in> set stubs. x \<notin> set (dependencies s)"
    then have "x \<notin> fst ` set al" using keys by blast
    then have "call_dependents_repo st2 x = call_dependents_repo st1 x" using b by blast
    then show "call_dependents_repo st3 x = call_dependents_repo st x" using a c(1) x(1) by simp
  qed
  have 4: "call_dependents_repo st3 sid = Some []" using c(1) by simp
  show ?thesis using 1 2 3 4 by blast
qed

lemma generate_dependency_graph_Inr:
  assumes "generate_dependency_graph pops sid stubs st = Some (Inr st')"
  shows "\<exists>leaves st3 out. register_graph sid stubs st = Inr (leaves, st3) \<and>
           generate_execution_order pops leaves (call_dependents_repo st3)
             (call_dependencies_repo st3) = Some (out, None) \<and>
           register_call_links sid out st3 = Inr st'"
  using assms
  by (auto simp: generate_dependency_graph_def register_execution_order_def finish_links_def
           split: sum.splits option.splits)

lemma append_dependent_origin:
  "listed (append_dependent d c al) d' c' \<Longrightarrow> listed al d' c' \<or> (d' = d \<and> c' = c)"
  by (induction d c al rule: append_dependent.induct) (auto simp: listed_def split: if_splits)

lemma track_dependents_origin:
  "listed (track_dependents c ds al) d' c' \<Longrightarrow> listed al d' c' \<or> (d' \<in> set ds \<and> c' = c)"
proof (induction c ds al rule: track_dependents.induct)
  case (1 c al)
  then show ?case by simp
next
  case (2 c d ds al)
  then show ?case using append_dependent_origin[of d c al d' c'] by auto
qed

lemma register_stubs_dependencies:
  assumes "register_stubs stubs leaves al st = Inr (leaves', al', st')"
  shows "(\<forall>s \<in> set stubs. call_dependencies_repo st' (call_id s) = Some (dependencies s)) \<and>
         (\<forall>k ds. call_dependencies_repo st k = Some ds \<longrightarrow> call_dependencies_repo st' k = Some ds) \<and>
         (\<forall>k ds. call_dependencies_repo st' k = Some ds \<longrightarrow>
            call_dependencies_repo st k = Some ds \<or>
            (\<exists>s \<in> set stubs. call_id s = k \<and> dependencies s = ds)) \<and>
         (\<forall>d c. listed al' d c \<longrightarrow>
            listed al d c \<or> (\<exists>s \<in> set stubs. call_id s = c \<and> d \<in> set (dependencies s)))"
  using assms
proof (induction stubs arbitrary: leaves al st)
  case Nil
  then show ?case by simp
next
  case (Cons s stubs)
  from Cons.prems obtain st1 st2 where
    r: "register_call_requirement (call_id s) (dsl_source s) (effective_present_time s) st = Inr st1"
       "register_call_dependencies (call_id s) (dependencies s) st1 = Inr st2"
    by (auto split: sum.splits)
  from register_call_requirement_Inr[OF r(1)]
  have f1: "call_dependencies_repo st1 = call_dependencies_repo st" by auto
  from r(2) have put: "repo_put (call_dependencies_repo st) (call_id s) (dependencies s)
       = Inr (call_dependencies_repo st2)"
    unfolding f1[symmetric] by (auto simp: register_call_dependencies_def split: sum.splits)
  note p = repo_put_Inr[OF put]
  have s2: "call_dependencies_repo st2 (call_id s) = Some (dependencies s)" using p by simp
  have keep2: "\<forall>k ds. call_dependencies_repo st k = Some ds \<longrightarrow> call_dependencies_repo st2 k = Some ds"
    using p by auto
  have orig2: "\<forall>k ds. call_dependencies_repo st2 k = Some ds \<longrightarrow>
      call_dependencies_repo st k = Some ds \<or> (k = call_id s \<and> ds = dependencies s)"
    using p by (auto split: if_splits)
  let ?al = "if dependencies s = [] then al else track_dependents (call_id s) (dependencies s) al"
  let ?lv = "if dependencies s = [] then leaves @ [call_id s] else leaves"
  have rec: "register_stubs stubs ?lv ?al st2 = Inr (leaves', al', st')"
    using Cons.prems r by (auto split: if_splits)
  note IH = Cons.IH[OF rec]
  have 1: "\<forall>x \<in> set (s # stubs). call_dependencies_repo st' (call_id x) = Some (dependencies x)"
    using IH s2 by simp
  have 2: "\<forall>k ds. call_dependencies_repo st k = Some ds \<longrightarrow> call_dependencies_repo st' k = Some ds"
    using IH keep2 by blast
  have 3: "\<forall>k ds. call_dependencies_repo st' k = Some ds \<longrightarrow>
            call_dependencies_repo st k = Some ds \<or>
            (\<exists>x \<in> set (s # stubs). call_id x = k \<and> dependencies x = ds)"
  proof (intro allI impI)
    fix k ds assume "call_dependencies_repo st' k = Some ds"
    then have "call_dependencies_repo st2 k = Some ds \<or>
            (\<exists>x \<in> set stubs. call_id x = k \<and> dependencies x = ds)" using IH by blast
    then show "call_dependencies_repo st k = Some ds \<or>
            (\<exists>x \<in> set (s # stubs). call_id x = k \<and> dependencies x = ds)"
      using orig2 by auto
  qed
  have o: "\<forall>d c. listed ?al d c \<longrightarrow> listed al d c \<or> (c = call_id s \<and> d \<in> set (dependencies s))"
  proof (intro allI impI)
    fix d c assume l: "listed ?al d c"
    show "listed al d c \<or> (c = call_id s \<and> d \<in> set (dependencies s))"
    proof (cases "dependencies s = []")
      case True
      then show ?thesis using l by simp
    next
      case False
      then show ?thesis
        using l track_dependents_origin[of "call_id s" "dependencies s" al d c] by auto
    qed
  qed
  have 4: "\<forall>d c. listed al' d c \<longrightarrow>
            listed al d c \<or> (\<exists>x \<in> set (s # stubs). call_id x = c \<and> d \<in> set (dependencies x))"
  proof (intro allI impI)
    fix d c assume "listed al' d c"
    then have "listed ?al d c \<or> (\<exists>x \<in> set stubs. call_id x = c \<and> d \<in> set (dependencies x))"
      using IH by blast
    then show "listed al d c \<or> (\<exists>x \<in> set (s # stubs). call_id x = c \<and> d \<in> set (dependencies x))"
      using o by auto
  qed
  show ?case using 1 2 3 4 by blast
qed

text \<open>What the assembler registers, from empty registries, is a dependency graph.\<close>

lemma register_graph_dependency_graph:
  assumes "register_graph sid stubs st = Inr (leaves, st3)"
    "call_dependencies_repo st = Map.empty" "call_dependents_repo st = Map.empty"
    "\<forall>s \<in> set stubs. \<forall>d \<in> set (dependencies s). d \<in> call_id ` set stubs"
  shows "dependency_graph (call_dependents_repo st3) (call_dependencies_repo st3) \<and>
         set leaves = {c. call_dependencies_repo st3 c = Some []}"
proof -
  from assms(1) obtain al st1 st2 where
    r: "register_stubs stubs [] [] st = Inr (leaves, al, st1)"
       "register_all_dependents al st1 = Inr st2"
       "register_call_dependents sid [] st2 = Inr st3"
    by (auto simp: register_graph_def split: sum.splits)
  note a = register_stubs_result[OF r(1)]
  note a' = register_stubs_dependencies[OF r(1)]
  note b = register_all_dependents_result[OF r(2)]
  note c = register_call_dependents_Inr[OF r(3)]
  let ?deps = "call_dependencies_repo st3" and ?dpts = "call_dependents_repo st3"
  have deps3: "?deps = call_dependencies_repo st1" using b c(1) by simp
  have reg: "\<forall>s \<in> set stubs. ?deps (call_id s) = Some (dependencies s)" using a' deps3 by simp
  have orig: "\<forall>k ds. ?deps k = Some ds \<longrightarrow> (\<exists>s \<in> set stubs. call_id s = k \<and> dependencies s = ds)"
    using a' deps3 assms(2) by simp
  have "\<forall>d c. listed al d c \<longrightarrow> (\<exists>s \<in> set stubs. call_id s = c \<and> d \<in> set (dependencies s))"
    using a' by (simp add: listed_def)
  moreover have "\<forall>s \<in> set stubs. \<forall>d \<in> set (dependencies s). listed al d (call_id s)"
    using a by blast
  ultimately
  have lst: "\<forall>d c. listed al d c \<longleftrightarrow> (\<exists>s \<in> set stubs. call_id s = c \<and> d \<in> set (dependencies s))"
    by blast
  have edge: "\<forall>d c. (d, c) \<in> edges ?deps \<longleftrightarrow> listed al d c"
  proof (intro allI iffI)
    fix d c assume "(d, c) \<in> edges ?deps"
    then obtain ds where ds: "?deps c = Some ds" "d \<in> set ds" by (auto simp: edges_def)
    then obtain s where "s \<in> set stubs" "call_id s = c" "dependencies s = ds" using orig by blast
    then show "listed al d c" using lst ds(2) by blast
  next
    fix d c assume "listed al d c"
    then obtain s where "s \<in> set stubs" "call_id s = c" "d \<in> set (dependencies s)"
      using lst by blast
    then show "(d, c) \<in> edges ?deps" using reg by (auto simp: edges_def)
  qed
  have "dom ?deps \<subseteq> call_id ` set stubs" using orig by auto
  then have 1: "finite (dom ?deps)" by (rule finite_subset) simp
  have 2: "closed ?deps" unfolding closed_def
  proof (intro allI impI)
    fix k ds d assume "?deps k = Some ds" "d \<in> set ds"
    then obtain s where "s \<in> set stubs" "d \<in> set (dependencies s)" using orig by blast
    then have "d \<in> call_id ` set stubs" using assms(4) by blast
    then show "d \<in> dom ?deps" using reg by auto
  qed
  have dp: "\<forall>n ms. ?dpts n = Some ms \<longrightarrow> (n, ms) \<in> set al \<or> ms = []"
  proof (intro allI impI)
    fix n ms assume n: "?dpts n = Some ms"
    show "(n, ms) \<in> set al \<or> ms = []"
    proof (cases "n \<in> fst ` set al")
      case True
      then obtain ms' where m: "(n, ms') \<in> set al" by auto
      then have "call_dependents_repo st2 n = Some ms'" using b by blast
      then have "?dpts n = Some ms'" using c by auto
      then show ?thesis using n m by simp
    next
      case False
      then have "call_dependents_repo st2 n = None" using b a assms(3) by simp
      then show ?thesis using n c(1) by (auto split: if_splits)
    qed
  qed
  have 3: "dependents_sound ?dpts ?deps" unfolding dependents_sound_def
  proof (intro allI impI)
    fix n ms m assume "?dpts n = Some ms" "m \<in> set ms"
    then have "listed al n m" using dp unfolding listed_def by fastforce
    then show "(n, m) \<in> edges ?deps" using edge by simp
  qed
  have 4: "dependents_complete ?dpts ?deps" unfolding dependents_complete_def
  proof (intro allI impI)
    fix n m assume "(n, m) \<in> edges ?deps"
    then obtain ms where ms: "(n, ms) \<in> set al" "m \<in> set ms" using edge by (auto simp: listed_def)
    then have "call_dependents_repo st2 n = Some ms" using b by blast
    then have "?dpts n = Some ms" using c by auto
    then show "\<exists>ms. ?dpts n = Some ms \<and> m \<in> set ms" using ms by blast
  qed
  have 5: "set leaves = {c. ?deps c = Some []}"
  proof -
    have "leaves = map call_id (filter (\<lambda>s. dependencies s = []) stubs)" using a by simp
    then show ?thesis using reg orig by force
  qed
  show ?thesis using 1 2 3 4 5 unfolding dependency_graph_def by simp
qed

section \<open>Properties of the evaluator\<close>

lemma register_call_result_Inr:
  assumes "register_call_result c v st = Inr st'"
  shows "st' = st\<lparr>call_result_repo := (call_result_repo st)(c \<mapsto> v)\<rparr>"
    and "call_result_repo st c = None \<or> call_result_repo st c = Some v"
  using assms by (auto simp: register_call_result_def split: sum.splits dest!: repo_put_Inr)

lemma evaluate_call_Inr:
  assumes "evaluate_call D sim c st = (evs, Inr st')"
  shows "\<exists>call v. call_requirement_repo st c = Some call \<and>
           evs = [(c, make_evaluation_kwds call sim)] \<and>
           register_call_result c v st = Inr st'"
  using assms
  by (auto simp: evaluate_call_def repo_get_def Let_def split: option.splits sum.splits)

lemma evaluate_call_evals:
  assumes "evaluate_call D sim c st = (evs, r)" "(x, kw) \<in> set evs"
  shows "x = c \<and> (\<exists>call. call_requirement_repo st c = Some call \<and> kw = make_evaluation_kwds call sim)"
  using assms
  by (auto simp: evaluate_call_def repo_get_def Let_def split: option.splits sum.splits)

lemma valuation_loop_result:
  assumes "valuation_loop D sim order st = (st', evals, raised)"
  shows "call_requirement_repo st' = call_requirement_repo st \<and>
         call_dependencies_repo st' = call_dependencies_repo st \<and>
         call_dependents_repo st' = call_dependents_repo st \<and>
         call_link_repo st' = call_link_repo st \<and>
         contract_valuation_repo st' = contract_valuation_repo st \<and>
         (\<forall>k x. call_result_repo st k = Some x \<longrightarrow> call_result_repo st' k = Some x) \<and>
         (\<forall>(c, kw) \<in> set evals. c \<in> set order \<and>
            (\<exists>call. call_requirement_repo st c = Some call \<and> kw = make_evaluation_kwds call sim)) \<and>
         (raised = None \<longrightarrow> map fst evals = order \<and>
            (\<forall>c \<in> set order. call_result_repo st' c \<noteq> None))"
  using assms
proof (induction order arbitrary: st st' evals raised)
  case Nil
  then show ?case by simp
next
  case (Cons c order)
  obtain evs r where e: "evaluate_call D sim c st = (evs, r)" by (cases "evaluate_call D sim c st")
  note ev = evaluate_call_evals[OF e]
  show ?case
  proof (cases r)
    case (Inl err)
    then have "st' = st" "evals = evs" "raised = Some err" using Cons.prems e by simp_all
    then show ?thesis using ev by auto
  next
    case (Inr st1)
    obtain st2 evs2 r2 where l: "valuation_loop D sim order st1 = (st2, evs2, r2)"
      by (cases "valuation_loop D sim order st1")
    then have eq: "st' = st2" "evals = evs @ evs2" "raised = r2"
      using Cons.prems e Inr by simp_all
    from evaluate_call_Inr[OF e[unfolded Inr]] obtain call v where
      c: "call_requirement_repo st c = Some call" "evs = [(c, make_evaluation_kwds call sim)]"
         "register_call_result c v st = Inr st1" by blast
    note h = register_call_result_Inr[OF c(3)]
    note IH = Cons.IH[OF l]
    have same: "call_requirement_repo st1 = call_requirement_repo st"
      "call_dependencies_repo st1 = call_dependencies_repo st"
      "call_dependents_repo st1 = call_dependents_repo st"
      "call_link_repo st1 = call_link_repo st"
      "contract_valuation_repo st1 = contract_valuation_repo st"
      using h(1) by simp_all
    have keep1: "\<forall>k x. call_result_repo st k = Some x \<longrightarrow> call_result_repo st1 k = Some x"
      using h by auto
    have c1: "call_result_repo st1 c = Some v" using h(1) by simp
    have 1: "\<forall>k x. call_result_repo st k = Some x \<longrightarrow> call_result_repo st' k = Some x"
      using keep1 IH eq by blast
    have 2: "\<forall>(x, kw) \<in> set evals. x \<in> set (c # order) \<and>
            (\<exists>call. call_requirement_repo st x = Some call \<and> kw = make_evaluation_kwds call sim)"
      using IH eq c same by auto
    have 3: "raised = None \<longrightarrow> map fst evals = c # order \<and>
            (\<forall>x \<in> set (c # order). call_result_repo st' x \<noteq> None)"
      using IH eq c(2) c1 by auto
    show ?thesis using IH same eq(1) 1 2 3 by simp
  qed
qed

lemma valuation_loop_append:
  "valuation_loop D sim (xs @ ys) st =
     (case valuation_loop D sim xs st of
        (st1, evs1, Some e) \<Rightarrow> (st1, evs1, Some e)
      | (st1, evs1, None) \<Rightarrow>
          (case valuation_loop D sim ys st1 of
             (st2, evs2, raised) \<Rightarrow> (st2, evs1 @ evs2, raised)))"
proof (induction xs arbitrary: st)
  case Nil
  then show ?case by (simp split: prod.splits)
next
  case (Cons x xs)
  show ?case
    by (simp add: Cons.IH split: prod.splits sum.splits option.splits)
qed

lemma dependency_values_loop_missing:
  assumes "d \<in> set ds" "result_repo d = None"
  shows "\<exists>d' \<in> set ds. result_repo d' = None \<and>
           dependency_values_loop result_repo ds dv = Inl (KeyError d')"
  using assms
proof (induction ds arbitrary: dv)
  case Nil
  then show ?case by simp
next
  case (Cons a ds)
  show ?case
  proof (cases "result_repo a")
    case None
    then show ?thesis by (auto simp: repo_get_def)
  next
    case (Some v)
    then have "d \<in> set ds" using Cons.prems by auto
    from Cons.IH[OF this Cons.prems(2)] show ?thesis using Some by (auto simp: repo_get_def)
  qed
qed

lemma get_dependency_values_missing:
  assumes "dependencies_repo c = Some ds" "d \<in> set ds" "result_repo d = None"
  shows "\<exists>d' \<in> set ds. repo_get result_repo d' = Inl (KeyError d') \<and>
           get_dependency_values c dependencies_repo result_repo = Inl (KeyError d')"
  using dependency_values_loop_missing[of d ds result_repo Map.empty] assms
  by (auto simp: get_dependency_values_def repo_get_def)

lemma evaluate_call_missing:
  assumes "call_dependencies_repo st c = Some ds" "d \<in> set ds" "call_result_repo st d = None"
  shows "\<exists>k. evaluate_call D sim c st = ([], Inl (KeyError k))"
proof -
  from get_dependency_values_missing[of "call_dependencies_repo st" c ds d "call_result_repo st"]
    assms obtain d' where
    "get_dependency_values c (call_dependencies_repo st) (call_result_repo st) = Inl (KeyError d')"
    by blast
  then show ?thesis by (auto simp: evaluate_call_def repo_get_def split: option.splits)
qed

section \<open>The examples\<close>

lemma acyclic_edges_rank:
  assumes "\<forall>c ds d. deps c = Some ds \<longrightarrow> d \<in> set ds \<longrightarrow> f d < (f c :: nat)"
  shows "acyclic (edges deps)"
proof -
  have "edges deps \<subseteq> measure f" using assms by (auto simp: edges_def)
  then show ?thesis using wf_measure wf_acyclic wf_subset by blast
qed

lemma diamond_graph: "dependency_graph diamond_dependents diamond_dependencies"
  unfolding dependency_graph_def closed_def dependents_sound_def dependents_complete_def edges_def
    diamond_dependents_def diamond_dependencies_def
  by (auto split: if_splits)

lemma diamond_acyclic: "acyclic (edges diamond_dependencies)"
  by (rule acyclic_edges_rank[where f = length])
     (auto simp: diamond_dependencies_def split: if_splits)

lemma diamond_leaves: "set [''a''] = {c. diamond_dependencies c = Some []}"
  by (auto simp: diamond_dependencies_def split: if_splits)

lemma diamond_card: "card (dom diamond_dependencies) \<le> length [0, 1, 0, 0 :: nat]"
  by (simp add: diamond_dependencies_def)

lemma diamond_run:
  "generate_execution_order [0, 1, 0, 0] [''a''] diamond_dependents diamond_dependencies
     = Some ([''a'', ''rb'', ''lb'', ''root''], None)"
  by (simp add: generate_execution_order_def repo_get_def visit_dependent_def removed_add_def
        removed_of_def set_add_def diamond_dependents_def diamond_dependencies_def)

lemma cyclic_register:
  "register_graph ''root'' cyclic_stubs empty_repos = Inr ([''a''], cyclic_repos)"
  by (simp add: register_graph_def cyclic_stubs_def empty_repos_def cyclic_repos_def
        register_call_requirement_def register_call_dependencies_def register_call_dependents_def
        repo_put_def)

lemma cyclic_run:
  "generate_execution_order [0] [''a''] (call_dependents_repo cyclic_repos)
     (call_dependencies_repo cyclic_repos) = Some ([''a''], None)"
  by (simp add: generate_execution_order_def repo_get_def visit_dependent_def removed_add_def
        removed_of_def set_add_def cyclic_repos_def)

lemma cyclic_generate:
  "generate_dependency_graph [0] ''root'' cyclic_stubs empty_repos
     = Some (Inr (cyclic_repos\<lparr>call_link_repo := [''root'' \<mapsto> ''a'']\<rparr>))"
  by (simp add: generate_dependency_graph_def cyclic_register register_execution_order_def
        cyclic_run finish_links_def register_call_link_def repo_put_def)
     (simp add: cyclic_repos_def)

lemma cyclic_not_acyclic: "\<not> acyclic (edges (call_dependencies_repo cyclic_repos))"
proof -
  have "(''x'', ''y'') \<in> edges (call_dependencies_repo cyclic_repos)"
    "(''y'', ''x'') \<in> edges (call_dependencies_repo cyclic_repos)"
    by (simp_all add: edges_def cyclic_repos_def)
  then have "(''x'', ''x'') \<in> (edges (call_dependencies_repo cyclic_repos))\<^sup>+" by (rule trancl_into_trancl2[OF _ r_into_trancl])
  then show ?thesis by (auto simp: acyclic_def)
qed

lemma chain_register:
  "register_graph ''root'' chain_stubs empty_repos = Inr ([''a''], chain_registered)"
  by (simp add: register_graph_def chain_stubs_def empty_repos_def chain_registered_def
        register_call_requirement_def register_call_dependencies_def register_call_dependents_def
        repo_put_def)

lemma chain_run:
  "generate_execution_order [0, 0] [''a''] (call_dependents_repo chain_registered)
     (call_dependencies_repo chain_registered) = Some ([''a'', ''root''], None)"
  by (simp add: generate_execution_order_def repo_get_def visit_dependent_def removed_add_def
        removed_of_def set_add_def chain_registered_def)

lemma chain_generate:
  "generate_dependency_graph [0, 0] ''root'' chain_stubs empty_repos = Some (Inr chain_repos)"
  by (simp add: generate_dependency_graph_def chain_register register_execution_order_def
        chain_run finish_links_def register_call_link_def repo_put_def chain_repos_def)
     (simp add: chain_registered_def register_call_link_def repo_put_def)

lemma chain_valuation:
  "generate_contract_valuation replay_collaborators ''root'' unnamed_simulation chain_repos
     = (chain_valued, [(''a'', chain_kwds 7), (''root'', chain_kwds 3)], None)"
  by (simp add: generate_contract_valuation_def replay_collaborators_def chain_repos_def
        chain_registered_def evaluate_call_def repo_get_def get_dependency_values_def
        make_evaluation_kwds_def unnamed_simulation_def register_call_result_def repo_put_def
        chain_kwds_def chain_valued_def numeral_2_eq_2)

lemma repeated_run:
  "generate_execution_order [0, 0] [''a'', ''a''] repeated_dependents repeated_dependencies
     = Some ([''a'', ''b''], None)"
  by (simp add: generate_execution_order_def repo_get_def visit_dependent_def removed_add_def
        removed_of_def set_add_def repeated_dependents_def repeated_dependencies_def)

section \<open>The claims\<close>

subsection \<open>The scheduler\<close>

text \<open>
  C1 (topological validity). For a dependency graph, leaf call ids that are exactly the
  calls without dependencies, and one pop per registered call or more, the scheduler
  returns without an exception, and for every edge from a dependency \<open>d\<close> to a call
  \<open>c\<close> the sequence yielded places \<open>d\<close> strictly before \<open>c\<close>: whenever \<open>c\<close> is
  yielded at all, and always when the graph is acyclic (the specification's dependency
  graph is a directed acyclic graph).
\<close>

theorem execution_order_topological:
  assumes "dependency_graph dependents deps"
    and "set leaf_call_ids = {c. deps c = Some []}"
    and "card (dom deps) \<le> length pops"
    and "deps c = Some ds" and "d \<in> set ds"
  shows "\<exists>out. generate_execution_order pops leaf_call_ids dependents deps = Some (out, None) \<and>
           (c \<in> set out \<or> acyclic (edges deps) \<longrightarrow> appears_before d c out)"
proof -
  from generate_execution_order_returns[OF assms(1,2,3)] obtain out where
    o: "generate_execution_order pops leaf_call_ids dependents deps = Some (out, None)"
       "distinct out" "ordered deps out"
       "\<forall>m ds. m \<notin> set out \<longrightarrow> deps m = Some ds \<longrightarrow> \<not> set ds \<subseteq> set out" by blast
  have e: "(d, c) \<in> edges deps" using assms(4,5) by (auto simp: edges_def)
  have "c \<in> set out \<or> acyclic (edges deps) \<longrightarrow> c \<in> set out"
  proof
    assume "c \<in> set out \<or> acyclic (edges deps)"
    then show "c \<in> set out"
    proof
      assume "acyclic (edges deps)"
      then have "set out = dom deps"
        using stuck_all_yielded[OF _ _ _ ordered_dom[OF o(3)] o(4)] assms(1)
        unfolding dependency_graph_def by simp
      then show ?thesis using assms(4) by auto
    qed
  qed
  then show ?thesis using ordered_edge_before[OF o(3,2) e] o(1) by blast
qed

theorem execution_order_topological_witness:
  "dependency_graph diamond_dependents diamond_dependencies \<and>
   set [''a''] = {c. diamond_dependencies c = Some []} \<and>
   card (dom diamond_dependencies) \<le> length [0, 1, 0, 0 :: nat] \<and>
   diamond_dependencies ''root'' = Some [''lb'', ''rb''] \<and>
   ''rb'' \<in> set [''lb'', ''rb''] \<and>
   acyclic (edges diamond_dependencies) \<and>
   (\<exists>out. generate_execution_order [0, 1, 0, 0] [''a''] diamond_dependents diamond_dependencies
            = Some (out, None) \<and>
          appears_before ''rb'' ''root'' out)"
proof -
  have r: "diamond_dependencies ''root'' = Some [''lb'', ''rb'']"
    by (simp add: diamond_dependencies_def)
  have m: "''rb'' \<in> set [''lb'', ''rb'']" by simp
  show ?thesis
    using execution_order_topological[OF diamond_graph diamond_leaves diamond_card r m]
      diamond_graph diamond_leaves diamond_card diamond_acyclic r m
    by blast
qed

text \<open>
  C2 (termination and completeness). For a finite acyclic dependency graph whose initial
  frontier is exactly its leaf call ids, every run of the scheduler with one pop per
  registered call or more returns without an exception, and the sequence yielded holds
  every call id of the graph exactly once.
\<close>

theorem execution_order_complete:
  assumes "dependency_graph dependents deps" and "acyclic (edges deps)"
    and "set leaf_call_ids = {c. deps c = Some []}"
    and "card (dom deps) \<le> length pops"
  shows "\<exists>out. generate_execution_order pops leaf_call_ids dependents deps = Some (out, None) \<and>
           distinct out \<and> set out = dom deps"
proof -
  from generate_execution_order_returns[OF assms(1,3,4)] obtain out where
    o: "generate_execution_order pops leaf_call_ids dependents deps = Some (out, None)"
       "distinct out" "ordered deps out"
       "\<forall>m ds. m \<notin> set out \<longrightarrow> deps m = Some ds \<longrightarrow> \<not> set ds \<subseteq> set out" by blast
  have "set out = dom deps"
    using stuck_all_yielded[OF _ _ assms(2) ordered_dom[OF o(3)] o(4)] assms(1)
    unfolding dependency_graph_def by simp
  then show ?thesis using o by blast
qed

theorem execution_order_complete_witness:
  "dependency_graph diamond_dependents diamond_dependencies \<and>
   acyclic (edges diamond_dependencies) \<and>
   set [''a''] = {c. diamond_dependencies c = Some []} \<and>
   card (dom diamond_dependencies) \<le> length [0, 1, 0, 0 :: nat] \<and>
   (\<exists>out. generate_execution_order [0, 1, 0, 0] [''a''] diamond_dependents diamond_dependencies
            = Some (out, None) \<and>
          distinct out \<and> set out = dom diamond_dependencies)"
  using execution_order_complete[OF diamond_graph diamond_acyclic diamond_leaves diamond_card]
    diamond_graph diamond_acyclic diamond_leaves diamond_card
  by blast

text \<open>
  C3, as the code has it. If the dependency graph contains a cycle, the scheduler returns
  without an exception having yielded, each once, only a strict subset of the registered
  calls; \<^verbatim>\<open>generate_dependency_graph\<close> makes no check of the sequence against the
  registered calls: its second part registers the call links of exactly the truncated
  sequence, and its outcome is the outcome of these registrations.
\<close>

theorem cyclic_order_truncated_and_linked:
  assumes "dependency_graph (call_dependents_repo st) (call_dependencies_repo st)"
    and "\<not> acyclic (edges (call_dependencies_repo st))"
    and "set leaf_call_ids = {c. call_dependencies_repo st c = Some []}"
    and "card (dom (call_dependencies_repo st)) \<le> length pops"
  shows "\<exists>out. generate_execution_order pops leaf_call_ids (call_dependents_repo st)
             (call_dependencies_repo st) = Some (out, None) \<and>
           distinct out \<and> set out \<subset> dom (call_dependencies_repo st) \<and>
           register_execution_order pops sid leaf_call_ids st =
             Some (register_call_links sid out st)"
proof -
  from cyclic_order_strict_subset[OF assms] obtain out where
    o: "generate_execution_order pops leaf_call_ids (call_dependents_repo st)
             (call_dependencies_repo st) = Some (out, None)"
       "distinct out" "set out \<subset> dom (call_dependencies_repo st)" by blast
  have "register_execution_order pops sid leaf_call_ids st = Some (register_call_links sid out st)"
    using o(1) by (simp add: register_execution_order_def finish_links_def split: sum.splits)
  then show ?thesis using o by blast
qed

theorem cyclic_order_truncated_and_linked_witness:
  "dependency_graph (call_dependents_repo cyclic_repos) (call_dependencies_repo cyclic_repos) \<and>
   \<not> acyclic (edges (call_dependencies_repo cyclic_repos)) \<and>
   set [''a''] = {c. call_dependencies_repo cyclic_repos c = Some []} \<and>
   card (dom (call_dependencies_repo cyclic_repos)) \<le> length [0, 0, 0, 0 :: nat] \<and>
   (\<exists>out. generate_execution_order [0, 0, 0, 0] [''a''] (call_dependents_repo cyclic_repos)
             (call_dependencies_repo cyclic_repos) = Some (out, None) \<and>
          distinct out \<and> set out \<subset> dom (call_dependencies_repo cyclic_repos) \<and>
          register_execution_order [0, 0, 0, 0] ''root'' [''a''] cyclic_repos =
            Some (register_call_links ''root'' out cyclic_repos))"
proof -
  have c: "\<forall>s \<in> set cyclic_stubs. \<forall>d \<in> set (dependencies s). d \<in> call_id ` set cyclic_stubs"
    by (simp add: cyclic_stubs_def)
  have e: "call_dependencies_repo empty_repos = Map.empty"
    "call_dependents_repo empty_repos = Map.empty" by (simp_all add: empty_repos_def)
  from register_graph_dependency_graph[OF cyclic_register e c]
  have g: "dependency_graph (call_dependents_repo cyclic_repos) (call_dependencies_repo cyclic_repos)"
    and l: "set [''a''] = {c. call_dependencies_repo cyclic_repos c = Some []}" by simp_all
  have k: "card (dom (call_dependencies_repo cyclic_repos)) \<le> length [0, 0, 0, 0 :: nat]"
    by (simp add: cyclic_repos_def)
  show ?thesis
    using cyclic_order_truncated_and_linked[OF g cyclic_not_acyclic l k, of "''root''"]
      g cyclic_not_acyclic l k
    by blast
qed

text \<open>
  The claim C3 as the specification states it fails on the code: for the stubbed calls
  \<open>cyclic_stubs\<close>, in which \<open>x\<close> and \<open>y\<close> depend on each other, four calls are
  registered, and \<^verbatim>\<open>generate_dependency_graph\<close> returns normally with the repositories
  holding the single link from the contract specification id to the leaf \<open>a\<close>.
\<close>

theorem cyclic_graph_links_persisted:
  "\<not> acyclic (edges (call_dependencies_repo cyclic_repos)) \<and>
   dom (call_dependencies_repo cyclic_repos) = {''root'', ''x'', ''y'', ''a''} \<and>
   generate_dependency_graph [0] ''root'' cyclic_stubs empty_repos
     = Some (Inr (cyclic_repos\<lparr>call_link_repo := [''root'' \<mapsto> ''a'']\<rparr>))"
proof -
  have "dom (call_dependencies_repo cyclic_repos) = {''root'', ''x'', ''y'', ''a''}"
    by (auto simp: cyclic_repos_def)
  then show ?thesis using cyclic_not_acyclic cyclic_generate by blast
qed

text \<open>
  C10 (each id at most once). When every registered dependent comes from an edge of the
  dependencies registry and the initial ids have no dependencies, a sequence that the
  scheduler returns holds no id twice, whether or not the list of initial ids or a list
  of dependents repeats an id; and with finitely many registered calls, one pop per
  registered call is enough for the scheduler to return.
\<close>

theorem execution_order_distinct:
  assumes "dependents_sound dependents deps"
    and "\<forall>c \<in> set leaf_call_ids. deps c = Some []"
  shows "(\<forall>out raised.
            generate_execution_order pops leaf_call_ids dependents deps = Some (out, raised)
            \<longrightarrow> distinct out) \<and>
         (finite (dom deps) \<and> card (dom deps) \<le> length pops
            \<longrightarrow> generate_execution_order pops leaf_call_ids dependents deps \<noteq> None)"
proof -
  note i = safe_inv_init[OF assms(2)]
  show ?thesis
    using execution_loop_safe[OF assms(1) i] execution_loop_terminates[OF assms(1) _ i, of pops]
    unfolding generate_execution_order_def by auto
qed

theorem execution_order_distinct_witness:
  "dependents_sound repeated_dependents repeated_dependencies \<and>
   repeated_dependencies ''a'' = Some [] \<and>
   generate_execution_order [0, 0] [''a'', ''a''] repeated_dependents repeated_dependencies
     = Some ([''a'', ''b''], None) \<and>
   distinct [''a'', ''b'']"
proof -
  have s: "dependents_sound repeated_dependents repeated_dependencies"
    by (auto simp: dependents_sound_def edges_def repeated_dependents_def
          repeated_dependencies_def split: if_splits)
  have a: "repeated_dependencies ''a'' = Some []" by (simp add: repeated_dependencies_def)
  then have l: "\<forall>c \<in> set [''a'', ''a'']. repeated_dependencies c = Some []" by simp
  show ?thesis
    using execution_order_distinct[OF s l, of "[0, 0]"] repeated_run s a by blast
qed

subsection \<open>The assembler\<close>

text \<open>
  C7 (dependents are the inverted dependencies). When \<^verbatim>\<open>generate_dependency_graph\<close>
  has consumed the stubbed calls and registered the dependents (lines 25 to 51): for
  every stubbed call \<open>c\<close> and every \<open>d\<close> among its dependencies, \<open>c\<close> is in the
  dependents registered for \<open>d\<close>; an id that no stubbed call lists as a dependency and
  that is not the contract specification id has the dependents entry it had before, none
  in a fresh registry; the contract specification id is registered with the empty list;
  and the rest of the function leaves the dependents registry as it is.
\<close>

theorem dependents_inverted:
  assumes "register_graph sid stubs st = Inr (leaf_call_ids, st3)"
  shows "(\<forall>s \<in> set stubs. \<forall>d \<in> set (dependencies s).
            \<exists>ms. call_dependents_repo st3 d = Some ms \<and> call_id s \<in> set ms) \<and>
         (\<forall>x. x \<noteq> sid \<longrightarrow> (\<forall>s \<in> set stubs. x \<notin> set (dependencies s)) \<longrightarrow>
            call_dependents_repo st3 x = call_dependents_repo st x) \<and>
         call_dependents_repo st3 sid = Some [] \<and>
         (\<forall>pops st'. generate_dependency_graph pops sid stubs st = Some (Inr st') \<longrightarrow>
            call_dependents_repo st' = call_dependents_repo st3)"
proof -
  have "call_dependents_repo st' = call_dependents_repo st3"
    if "generate_dependency_graph pops sid stubs st = Some (Inr st')" for pops st'
  proof -
    from generate_dependency_graph_Inr[OF that] obtain out where
      "register_call_links sid out st3 = Inr st'" using assms by auto
    then show ?thesis using register_call_links_result by blast
  qed
  then show ?thesis using register_graph_result[OF assms] by blast
qed

theorem dependents_inverted_witness:
  "register_graph ''root'' chain_stubs empty_repos = Inr ([''a''], chain_registered) \<and>
   (\<exists>ms. call_dependents_repo chain_registered ''a'' = Some ms \<and> ''root'' \<in> set ms) \<and>
   call_dependents_repo chain_registered ''b'' = call_dependents_repo empty_repos ''b'' \<and>
   call_dependents_repo chain_registered ''root'' = Some [] \<and>
   generate_dependency_graph [0, 0] ''root'' chain_stubs empty_repos = Some (Inr chain_repos) \<and>
   call_dependents_repo chain_repos = call_dependents_repo chain_registered"
proof -
  note t = dependents_inverted[OF chain_register]
  have s: "\<lparr>dsl_source = ''a + 1'', effective_present_time = None, call_id = ''root'',
            dependencies = [''a'']\<rparr> \<in> set chain_stubs" by (simp add: chain_stubs_def)
  have 1: "\<exists>ms. call_dependents_repo chain_registered ''a'' = Some ms \<and> ''root'' \<in> set ms"
    using t s by fastforce
  have "\<forall>s \<in> set chain_stubs. ''b'' \<notin> set (dependencies s)" by (simp add: chain_stubs_def)
  then have 2: "call_dependents_repo chain_registered ''b'' = call_dependents_repo empty_repos ''b''"
    using t by simp
  have 3: "call_dependents_repo chain_registered ''root'' = Some []" using t by blast
  have 4: "call_dependents_repo chain_repos = call_dependents_repo chain_registered"
    using t chain_generate by blast
  show ?thesis using chain_register chain_generate 1 2 3 4 by blast
qed



subsection \<open>The evaluator\<close>



text \<open>
  C5 (a missing dependency result). Let the evaluator have reached the call \<open>c\<close> of the
  execution order without an exception, in the repositories \<open>st1\<close>, and let the result of
  a dependency of \<open>c\<close> be absent. Then \<^verbatim>\<open>get_dependency_values\<close> raises the very
  \<^verbatim>\<open>KeyError\<close> that the result repository raises for an absent dependency, and
  \<^verbatim>\<open>generate_contract_valuation\<close> ends with a \<^verbatim>\<open>KeyError\<close> in the repositories
  \<open>st1\<close>: nothing is evaluated and no result is registered for \<open>c\<close>.
\<close>

theorem missing_dependency_no_result:
  assumes "regenerate_execution_order D gid (call_link_repo st) = (pre @ c # post, gen_raised)"
    and "valuation_loop D sim pre
       (st\<lparr>contract_valuation_repo := contract_valuation_repo st @ [gid]\<rparr>) = (st1, evals1, None)"
    and "call_dependencies_repo st1 c = Some ds" and "d \<in> set ds"
    and "call_result_repo st1 d = None"
  shows "(\<exists>d' \<in> set ds. repo_get (call_result_repo st1) d' = Inl (KeyError d') \<and>
            get_dependency_values c (call_dependencies_repo st1) (call_result_repo st1) =
              Inl (KeyError d')) \<and>
         (\<exists>k. generate_contract_valuation D gid sim st = (st1, evals1, Some (KeyError k)))"
proof -
  from evaluate_call_missing[of st1 c ds d D sim] assms(3,4,5) obtain k where
    "evaluate_call D sim c st1 = ([], Inl (KeyError k))" by blast
  then have "valuation_loop D sim (c # post) st1 = (st1, [], Some (KeyError k))" by simp
  then have "valuation_loop D sim (pre @ c # post)
       (st\<lparr>contract_valuation_repo := contract_valuation_repo st @ [gid]\<rparr>)
       = (st1, evals1, Some (KeyError k))"
    using assms(2) by (simp add: valuation_loop_append)
  then have "generate_contract_valuation D gid sim st = (st1, evals1, Some (KeyError k))"
    using assms(1) by (simp add: generate_contract_valuation_def Let_def)
  then show ?thesis
    using get_dependency_values_missing[of "call_dependencies_repo st1" c ds d "call_result_repo st1"]
      assms(3,4,5) by blast
qed

theorem missing_dependency_no_result_witness:
  "regenerate_execution_order misordered_collaborators ''root'' (call_link_repo chain_repos)
     = ([] @ ''root'' # [''a''], None) \<and>
   call_dependencies_repo chain_repos ''root'' = Some [''a''] \<and>
   call_result_repo chain_repos ''a'' = None \<and>
   (\<exists>d' \<in> set [''a''].
      get_dependency_values ''root'' (call_dependencies_repo chain_repos)
        (call_result_repo chain_repos) = Inl (KeyError d')) \<and>
   (\<exists>k. generate_contract_valuation misordered_collaborators ''root'' unnamed_simulation chain_repos
          = (chain_repos\<lparr>contract_valuation_repo := contract_valuation_repo chain_repos @ [''root'']\<rparr>,
             [], Some (KeyError k))) \<and>
   call_result_repo
     (chain_repos\<lparr>contract_valuation_repo := contract_valuation_repo chain_repos @ [''root'']\<rparr>)
     ''root'' = None"
proof -
  let ?st1 = "chain_repos\<lparr>contract_valuation_repo := contract_valuation_repo chain_repos @ [''root'']\<rparr>"
  have 1: "regenerate_execution_order misordered_collaborators ''root'' (call_link_repo chain_repos)
     = ([] @ ''root'' # [''a''], None)"
    by (simp add: misordered_collaborators_def replay_collaborators_def)
  have 2: "valuation_loop misordered_collaborators unnamed_simulation [] ?st1 = (?st1, [], None)"
    by simp
  have 3: "call_dependencies_repo ?st1 ''root'' = Some [''a'']"
    by (simp add: chain_repos_def chain_registered_def)
  have 4: "''a'' \<in> set [''a'']" by simp
  have 5: "call_result_repo ?st1 ''a'' = None"
    by (simp add: chain_repos_def chain_registered_def)
  have 6: "call_result_repo ?st1 ''root'' = None"
    by (simp add: chain_repos_def chain_registered_def)
  show ?thesis
    using missing_dependency_no_result[OF 1 2 3 4 5] 1 3 5 6 by auto
qed

text \<open>
  C6 (the present time of an evaluation). Every call of numeric evaluation that
  \<^verbatim>\<open>generate_contract_valuation\<close> makes is for a registered call requirement, and the
  present time passed is the requirement's own effective present time when that is set,
  and the observation date of the market simulation otherwise.
\<close>

theorem evaluation_present_time:
  assumes "generate_contract_valuation D gid sim st = (st', evals, raised)"
    and "(c, kwds) \<in> set evals"
  shows "\<exists>call. call_requirement_repo st c = Some call \<and>
           present_time kwds =
             (case effective_present_time call of
                Some t \<Rightarrow> t
              | None \<Rightarrow> observation_date sim)"
proof -
  let ?st0 = "st\<lparr>contract_valuation_repo := contract_valuation_repo st @ [gid]\<rparr>"
  let ?order = "fst (regenerate_execution_order D gid (call_link_repo st))"
  obtain st1 evs1 r1 where l: "valuation_loop D sim ?order ?st0 = (st1, evs1, r1)"
    by (cases "valuation_loop D sim ?order ?st0")
  then have "evs1 = evals"
    using assms(1) by (auto simp: generate_contract_valuation_def Let_def split: option.splits)
  then obtain call where "call_requirement_repo ?st0 c = Some call" "kwds = make_evaluation_kwds call sim"
    using valuation_loop_result[OF l] assms(2) by blast
  then show ?thesis by (auto simp: make_evaluation_kwds_def)
qed

theorem evaluation_present_time_witness:
  "generate_contract_valuation replay_collaborators ''root'' unnamed_simulation chain_repos
     = (chain_valued, [(''a'', chain_kwds 7), (''root'', chain_kwds 3)], None) \<and>
   (\<exists>call. call_requirement_repo chain_repos ''a'' = Some call \<and>
      effective_present_time call = Some 7 \<and> present_time (chain_kwds 7) = 7) \<and>
   (\<exists>call. call_requirement_repo chain_repos ''root'' = Some call \<and>
      effective_present_time call = None \<and>
      present_time (chain_kwds 3) = observation_date unnamed_simulation)"
proof -
  have a: "(''a'', chain_kwds 7) \<in> set [(''a'', chain_kwds 7), (''root'', chain_kwds 3)]"
    and r: "(''root'', chain_kwds 3) \<in> set [(''a'', chain_kwds 7), (''root'', chain_kwds 3)]"
    by simp_all
  from evaluation_present_time[OF chain_valuation a]
  have 1: "\<exists>call. call_requirement_repo chain_repos ''a'' = Some call \<and>
      effective_present_time call = Some 7 \<and> present_time (chain_kwds 7) = 7"
    by (auto simp: chain_repos_def chain_registered_def chain_kwds_def)
  from evaluation_present_time[OF chain_valuation r]
  have 2: "\<exists>call. call_requirement_repo chain_repos ''root'' = Some call \<and>
      effective_present_time call = None \<and>
      present_time (chain_kwds 3) = observation_date unnamed_simulation"
    by (auto simp: chain_repos_def chain_registered_def chain_kwds_def unnamed_simulation_def)
  show ?thesis using chain_valuation 1 2 by blast
qed



end
